theory Spec2Isabelle
  imports Main "HOL-Library.Word" "HOL-Library.Code_Target_Nat"
begin

unbundle bit_operations_syntax

section \<open>Go strings, runes and UTF-8\<close>

text \<open>
  A Go \<^verbatim>\<open>string\<close> is a sequence of bytes, which is what \<^typ>\<open>string\<close> is here
  (a \<^typ>\<open>char\<close> is one byte). A \<^verbatim>\<open>rune\<close> is an \<^verbatim>\<open>int32\<close>; every rune of
  \<^verbatim>\<open>processLine\<close> comes out of the \<^verbatim>\<open>range\<close> loop over a string and lies in
  \<open>0 .. 0x10FFFF\<close>, so runes are natural numbers and no operation on them wraps.

  \<^verbatim>\<open>for _, char := range line\<close> decodes the string as UTF-8 with the runtime's
  \<^verbatim>\<open>decoderune\<close>; \<^verbatim>\<open>string(result)\<close> encodes a rune slice with the runtime's
  \<^verbatim>\<open>encoderune\<close>. Both are modelled with the constants of \<^verbatim>\<open>runtime/utf8.go\<close>.
\<close>

type_synonym rune = nat

definition runeError :: rune where "runeError = 0xFFFD"
definition runeSelf :: nat where "runeSelf = 0x80"
definition maxRune :: rune where "maxRune = 0x10FFFF"
definition surrogateMin :: rune where "surrogateMin = 0xD800"
definition surrogateMax :: rune where "surrogateMax = 0xDFFF"

definition tx :: nat where "tx = 0x80"
definition t2 :: nat where "t2 = 0xC0"
definition t3 :: nat where "t3 = 0xE0"
definition t4 :: nat where "t4 = 0xF0"
definition t5 :: nat where "t5 = 0xF8"

definition maskx :: nat where "maskx = 0x3F"
definition mask2 :: nat where "mask2 = 0x1F"
definition mask3 :: nat where "mask3 = 0x0F"
definition mask4 :: nat where "mask4 = 0x07"

definition rune1Max :: rune where "rune1Max = 0x7F"
definition rune2Max :: rune where "rune2Max = 0x7FF"
definition rune3Max :: rune where "rune3Max = 0xFFFF"

definition locb :: nat where "locb = 0x80"
definition hicb :: nat where "hicb = 0xBF"

text \<open>\<^verbatim>\<open>locb <= b && b <= hicb\<close>: the byte is a continuation byte.\<close>

definition cont :: "nat \<Rightarrow> bool" where
  "cont b = (locb \<le> b \<and> b \<le> hicb)"

text \<open>
  The three multi-byte cases of \<^verbatim>\<open>decoderune\<close>. Each returns the rune and the
  number of bytes it takes, or \<open>None\<close> where the Go code leaves the \<^verbatim>\<open>switch\<close>
  for the final \<^verbatim>\<open>return runeError, k + 1\<close>. The arguments are the bytes of
  \<^verbatim>\<open>s[k:]\<close> after the first one.
\<close>

definition decode2 :: "nat \<Rightarrow> nat list \<Rightarrow> (rune \<times> nat) option" where
  "decode2 s0 s =
     (case s of
        s1 # _ \<Rightarrow>
          if cont s1 then
            (let r = push_bit 6 (s0 AND mask2) OR (s1 AND maskx)
             in if rune1Max < r then Some (r, 2) else None)
          else None
      | _ \<Rightarrow> None)"

definition decode3 :: "nat \<Rightarrow> nat list \<Rightarrow> (rune \<times> nat) option" where
  "decode3 s0 s =
     (case s of
        s1 # s2 # _ \<Rightarrow>
          if cont s1 \<and> cont s2 then
            (let r = push_bit 12 (s0 AND mask3) OR push_bit 6 (s1 AND maskx) OR (s2 AND maskx)
             in if rune2Max < r \<and> \<not> (surrogateMin \<le> r \<and> r \<le> surrogateMax)
                then Some (r, 3) else None)
          else None
      | _ \<Rightarrow> None)"

definition decode4 :: "nat \<Rightarrow> nat list \<Rightarrow> (rune \<times> nat) option" where
  "decode4 s0 s =
     (case s of
        s1 # s2 # s3 # _ \<Rightarrow>
          if cont s1 \<and> cont s2 \<and> cont s3 then
            (let r = push_bit 18 (s0 AND mask4) OR push_bit 12 (s1 AND maskx)
                       OR push_bit 6 (s2 AND maskx) OR (s3 AND maskx)
             in if rune3Max < r \<and> r \<le> maxRune then Some (r, 4) else None)
          else None
      | _ \<Rightarrow> None)"

text \<open>
  \<^verbatim>\<open>decoderune\<close> at the head of a non-empty rest of the string, with the fast path
  of the \<^verbatim>\<open>range\<close> loop for a byte below \<^verbatim>\<open>runeSelf\<close>. The result is the rune and
  the number of bytes consumed; every ill-formed sequence gives \<^verbatim>\<open>runeError\<close> and
  consumes one byte.
\<close>

definition decoderune :: "char \<Rightarrow> string \<Rightarrow> rune \<times> nat" where
  "decoderune c cs =
     (let s0 = of_char c; s = map of_char cs
      in if s0 < runeSelf then (s0, 1)
         else case (if t2 \<le> s0 \<and> s0 < t3 then decode2 s0 s
                    else if t3 \<le> s0 \<and> s0 < t4 then decode3 s0 s
                    else if t4 \<le> s0 \<and> s0 < t5 then decode4 s0 s
                    else None) of
                Some rn \<Rightarrow> rn
              | None \<Rightarrow> (runeError, 1))"

text \<open>The runes that \<^verbatim>\<open>for _, char := range line\<close> yields, in order.\<close>

function rangeString :: "string \<Rightarrow> rune list" where
  "rangeString [] = []"
| "rangeString (c # cs) = fst (decoderune c cs) # rangeString (drop (snd (decoderune c cs)) (c # cs))"
  by pat_completeness auto
termination
  by (relation "measure length")
     (auto simp: decoderune_def decode2_def decode3_def decode4_def Let_def
           split: list.splits if_splits option.splits)

text \<open>
  \<^verbatim>\<open>encoderune\<close>: the UTF-8 bytes of a rune. \<^verbatim>\<open>byte(x)\<close> keeps the low eight bits.
  A surrogate or a value above \<^verbatim>\<open>maxRune\<close> is encoded as \<^verbatim>\<open>runeError\<close>.
\<close>

definition byte :: "nat \<Rightarrow> nat" where
  "byte x = x mod 256"

definition encode3 :: "rune \<Rightarrow> string" where
  "encode3 r = [char_of (t3 OR byte (drop_bit 12 r)),
                char_of (tx OR (byte (drop_bit 6 r) AND maskx)),
                char_of (tx OR (byte r AND maskx))]"

definition encoderune :: "rune \<Rightarrow> string" where
  "encoderune r =
     (if r \<le> rune1Max then [char_of (byte r)]
      else if r \<le> rune2Max then
        [char_of (t2 OR byte (drop_bit 6 r)), char_of (tx OR (byte r AND maskx))]
      else if r > maxRune \<or> (surrogateMin \<le> r \<and> r \<le> surrogateMax) then encode3 runeError
      else if r \<le> rune3Max then encode3 r
      else [char_of (t4 OR byte (drop_bit 18 r)),
            char_of (tx OR (byte (drop_bit 12 r) AND maskx)),
            char_of (tx OR (byte (drop_bit 6 r) AND maskx)),
            char_of (tx OR (byte r AND maskx))])"

text \<open>\<^verbatim>\<open>string(result)\<close> for a rune slice: the encodings, concatenated.\<close>

fun slicerunetostring :: "rune list \<Rightarrow> string" where
  "slicerunetostring [] = []"
| "slicerunetostring (r # rs) = encoderune r @ slicerunetostring rs"

text \<open>
  \<^verbatim>\<open>utf8.ValidRune\<close>: the rune is a Unicode scalar value (no surrogate, at most
  \<^verbatim>\<open>maxRune\<close>).
\<close>

definition ValidRune :: "rune \<Rightarrow> bool" where
  "ValidRune r = (r < surrogateMin \<or> (surrogateMax < r \<and> r \<le> maxRune))"

text \<open>
  \<^verbatim>\<open>utf8.ValidString\<close>: the string is well-formed UTF-8. An ill-formed sequence is
  the one place where decoding answers \<^verbatim>\<open>runeError\<close> with width 1.
\<close>

function ValidString :: "string \<Rightarrow> bool" where
  "ValidString [] = True"
| "ValidString (c # cs) =
     (if decoderune c cs = (runeError, 1) then False
      else ValidString (drop (snd (decoderune c cs)) (c # cs)))"
  by pat_completeness auto
termination
  by (relation "measure length")
     (auto simp: decoderune_def decode2_def decode3_def decode4_def Let_def
           split: list.splits if_splits option.splits)

text \<open>\<^verbatim>\<open>utf8.RuneCountInString\<close>: the length of a string in code points.\<close>

definition RuneCountInString :: "string \<Rightarrow> nat" where
  "RuneCountInString s = length (rangeString s)"

section \<open>The line normalizer\<close>

text \<open>
  \<^verbatim>\<open>unicode.IsControl\<close>: a rune up to \<^verbatim>\<open>MaxLatin1\<close> is looked up in the
  \<^verbatim>\<open>properties\<close> table, whose entries carry \<^verbatim>\<open>pC\<close> for \<open>0x00 .. 0x1F\<close> and
  \<open>0x7F .. 0x9F\<close>; no rune above \<^verbatim>\<open>MaxLatin1\<close> is a control character.
\<close>

definition MaxLatin1 :: rune where "MaxLatin1 = 0xFF"

definition properties_pC :: "nat \<Rightarrow> bool" where
  "properties_pC b = (b \<le> 0x1F \<or> (0x7F \<le> b \<and> b \<le> 0x9F))"

definition IsControl :: "rune \<Rightarrow> bool" where
  "IsControl r = (if r \<le> MaxLatin1 then properties_pC r else False)"

text \<open>One turn of the \<^verbatim>\<open>switch\<close> in \<^verbatim>\<open>processLine\<close>; \<^verbatim>\<open>'\b'\<close> is code point 8.\<close>

definition processLine_step :: "rune list \<Rightarrow> rune \<Rightarrow> rune list" where
  "processLine_step result char =
     (if char = 8 then
        (if length result > 0 then take (length result - 1) result else result)
      else if IsControl char then result
      else result @ [char])"

fun processLine_loop :: "rune list \<Rightarrow> rune list \<Rightarrow> rune list" where
  "processLine_loop result [] = result"
| "processLine_loop result (char # rest) = processLine_loop (processLine_step result char) rest"

definition processLine :: "string \<Rightarrow> string" where
  "processLine line = slicerunetostring (processLine_loop [] (rangeString line))"

section \<open>Patterns and the command line\<close>

text \<open>
  The packages \<^verbatim>\<open>regexp\<close>, \<^verbatim>\<open>flag\<close> and \<^verbatim>\<open>strconv\<close> belong to Go, not to
  this repository; what the program takes from them is a parameter of the model.
  \<open>'re\<close> is \<^verbatim>\<open>*regexp.Regexp\<close>. \<open>Compile\<close> is \<^verbatim>\<open>regexp.Compile\<close>, answering
  the text of the syntax error (\<open>Inl\<close>) or the compiled expression; \<open>MatchString\<close> is
  \<^verbatim>\<open>(*Regexp).MatchString\<close>, which reports whether the string contains any match of
  the expression. \<open>Quote\<close> is the \<^verbatim>\<open>%q\<close> verb of \<^verbatim>\<open>fmt\<close> and \<open>defaultUsage\<close> what
  the \<^verbatim>\<open>flag\<close> package prints as usage when \<^verbatim>\<open>flag.Usage\<close> is left alone.
\<close>

record 're golib =
  Compile :: "string \<Rightarrow> string + 're"
  MatchString :: "'re \<Rightarrow> string \<Rightarrow> bool"
  Quote :: "string \<Rightarrow> string"
  defaultUsage :: "string"

text \<open>
  \<^verbatim>\<open>func (r *RegexSlice) Set(value string) error\<close>: the slice after the call and the
  error (\<open>None\<close> for \<^verbatim>\<open>nil\<close>). The error of \<^verbatim>\<open>fmt.Errorf\<close> is its text.
\<close>

definition RegexSlice_Set :: "'re golib \<Rightarrow> 're list \<Rightarrow> string \<Rightarrow> 're list \<times> string option" where
  "RegexSlice_Set lib r value =
     (case Compile lib value of
        Inl err \<Rightarrow> (r, Some (''invalid regex pattern '' @ [CHR 0x27] @ value @ [CHR 0x27] @ '': '' @ err))
      | Inr compiled \<Rightarrow> (r @ [compiled], None))"

text \<open>
  What a run does, in order: a line handed out by \<^verbatim>\<open>scanner.Text()\<close>, a line printed
  by \<^verbatim>\<open>fmt.Println\<close>, a call of \<^verbatim>\<open>MatchString\<close>, a text written to
  \<^verbatim>\<open>os.Stderr\<close>. A run ends with its exit status.
\<close>

datatype 're event =
    EvScan string
  | EvPrintln string
  | EvMatch 're string
  | EvStderr string

type_synonym 're run = "'re event list \<times> nat"

text \<open>
  The input as \<^verbatim>\<open>bufio.Scanner\<close> delivers it: the lines for which \<^verbatim>\<open>Scan()\<close>
  answers true, then the value of \<^verbatim>\<open>scanner.Err()\<close> (\<open>None\<close> for \<^verbatim>\<open>nil\<close>, the
  end of the input).
\<close>

record stream =
  lines :: "string list"
  err :: "string option"

text \<open>
  \<^verbatim>\<open>for _, pattern := range patterns { if pattern.MatchString(processedLine) { os.Exit(..) } }\<close>:
  the calls made, and whether one matched (the loop then exits the program).
\<close>

fun rangePatterns :: "'re golib \<Rightarrow> 're list \<Rightarrow> string \<Rightarrow> 're event list \<times> bool" where
  "rangePatterns lib [] processedLine = ([], False)"
| "rangePatterns lib (pattern # rest) processedLine =
     (if MatchString lib pattern processedLine then ([EvMatch pattern processedLine], True)
      else (case rangePatterns lib rest processedLine of
              (evs, hit) \<Rightarrow> (EvMatch pattern processedLine # evs, hit)))"

text \<open>
  The command line, as the \<^verbatim>\<open>flag\<close> package reads it: the occurrences of
  \<^verbatim>\<open>-success\<close> and \<^verbatim>\<open>-failure\<close> in their order; \<^verbatim>\<open>flag.Parse\<close> calls
  \<^verbatim>\<open>Set\<close> for each. At the first error it prints
  \<^verbatim>\<open>invalid value %q for flag -%s: %v\<close> and the usage, and returns the error.
\<close>

datatype kind = Success | Failure

definition flagName :: "kind \<Rightarrow> string" where
  "flagName k = (case k of Success \<Rightarrow> ''success'' | Failure \<Rightarrow> ''failure'')"

definition failf :: "'re golib \<Rightarrow> kind \<Rightarrow> string \<Rightarrow> string \<Rightarrow> string" where
  "failf lib k value e =
     ''invalid value '' @ Quote lib value @ '' for flag -'' @ flagName k @ '': '' @ e @ ''\<newline>''"

fun flagParse :: "'re golib \<Rightarrow> (kind \<times> string) list \<Rightarrow> 're list \<Rightarrow> 're list
    \<Rightarrow> string + ('re list \<times> 're list)" where
  "flagParse lib [] successPatterns failurePatterns = Inr (successPatterns, failurePatterns)"
| "flagParse lib ((Success, value) # rest) successPatterns failurePatterns =
     (case RegexSlice_Set lib successPatterns value of
        (_, Some e) \<Rightarrow> Inl (failf lib Success value e)
      | (r, None) \<Rightarrow> flagParse lib rest r failurePatterns)"
| "flagParse lib ((Failure, value) # rest) successPatterns failurePatterns =
     (case RegexSlice_Set lib failurePatterns value of
        (_, Some e) \<Rightarrow> Inl (failf lib Failure value e)
      | (r, None) \<Rightarrow> flagParse lib rest successPatterns r)"

section \<open>The minimal variant (main.go)\<close>

text \<open>The body of \<^verbatim>\<open>for scanner.Scan()\<close>: the events of one line and the exit, if any.\<close>

definition scanBody :: "'re golib \<Rightarrow> 're list \<Rightarrow> 're list \<Rightarrow> string \<Rightarrow> 're event list \<times> nat option" where
  "scanBody lib successPatterns failurePatterns line =
     (let processedLine = processLine line;
          start = [EvScan line, EvPrintln processedLine]
      in case rangePatterns lib successPatterns processedLine of
           (evs, True) \<Rightarrow> (start @ evs, Some 0)
         | (evs, False) \<Rightarrow>
             (case rangePatterns lib failurePatterns processedLine of
                (evf, True) \<Rightarrow> (start @ evs @ evf, Some 1)
              | (evf, False) \<Rightarrow> (start @ evs @ evf, None)))"

fun scanLoop :: "'re golib \<Rightarrow> 're list \<Rightarrow> 're list \<Rightarrow> string list \<Rightarrow> 're event list \<times> nat option" where
  "scanLoop lib successPatterns failurePatterns [] = ([], None)"
| "scanLoop lib successPatterns failurePatterns (line # rest) =
     (case scanBody lib successPatterns failurePatterns line of
        (evs, Some status) \<Rightarrow> (evs, Some status)
      | (evs, None) \<Rightarrow>
          (case scanLoop lib successPatterns failurePatterns rest of
             (evs', exit) \<Rightarrow> (evs @ evs', exit)))"

text \<open>
  From \<^verbatim>\<open>scanner := bufio.NewScanner(os.Stdin)\<close> to the end of \<^verbatim>\<open>main\<close>; returning
  from \<^verbatim>\<open>main\<close> is exit status 0.
\<close>

definition run_minimal :: "'re golib \<Rightarrow> 're list \<Rightarrow> 're list \<Rightarrow> stream \<Rightarrow> 're run" where
  "run_minimal lib successPatterns failurePatterns input =
     (case scanLoop lib successPatterns failurePatterns (lines input) of
        (evs, Some status) \<Rightarrow> (evs, status)
      | (evs, None) \<Rightarrow>
          (case err input of
             Some e \<Rightarrow> (evs @ [EvStderr (''Error reading from stdin: '' @ e @ ''\<newline>'')], 2)
           | None \<Rightarrow> (evs, 0)))"

text \<open>
  \<^verbatim>\<open>main\<close>: \<^verbatim>\<open>flag.CommandLine\<close> exits with status 2 when parsing fails, after the
  message and the usage.
\<close>

definition main_minimal :: "'re golib \<Rightarrow> (kind \<times> string) list \<Rightarrow> stream \<Rightarrow> 're run" where
  "main_minimal lib patternFlags input =
     (case flagParse lib patternFlags [] [] of
        Inl msg \<Rightarrow> ([EvStderr msg, EvStderr (defaultUsage lib)], 2)
      | Inr (successPatterns, failurePatterns) \<Rightarrow>
          run_minimal lib successPatterns failurePatterns input)"

section \<open>The extended variant\<close>

text \<open>
  The second \<^verbatim>\<open>main\<close> package of the repository (with \<^verbatim>\<open>-quiet\<close>, \<^verbatim>\<open>-help\<close> and
  an input file) has its own \<^verbatim>\<open>processLine\<close> and its own loop; they are modelled
  from that file.
\<close>

definition ext_processLine_step :: "rune list \<Rightarrow> rune \<Rightarrow> rune list" where
  "ext_processLine_step result char =
     (if char = 8 then
        (if length result > 0 then take (length result - 1) result else result)
      else if IsControl char then result
      else result @ [char])"

fun ext_processLine_loop :: "rune list \<Rightarrow> rune list \<Rightarrow> rune list" where
  "ext_processLine_loop result [] = result"
| "ext_processLine_loop result (char # rest) =
     ext_processLine_loop (ext_processLine_step result char) rest"

definition ext_processLine :: "string \<Rightarrow> string" where
  "ext_processLine line = slicerunetostring (ext_processLine_loop [] (rangeString line))"

text \<open>\<^verbatim>\<open>printHelp\<close> writes these texts to \<^verbatim>\<open>os.Stderr\<close> and exits with status 99.\<close>

definition printHelp :: "string list" where
  "printHelp =
     [''handytail - process input with pattern matching and exit codes\<newline>\<newline>'',
      ''Usage:\<newline>'',
      ''  ./handytail [options] < input\<newline>'',
      ''  command | ./handytail [options]\<newline>'',
      ''  ./handytail [options] /path/to/inputfile\<newline>\<newline>'',
      ''Options:\<newline>'',
      ''  -success <pattern>   Regex pattern that causes exit with status 0 (can be specified multiple times)\<newline>'',
      ''  -failure <pattern>   Regex pattern that causes exit with status 1 (can be specified multiple times)\<newline>'',
      ''  -quiet              Disables printing the processed lines to screen\<newline>'',
      ''  -help               Show this help message and exit\<newline>'',
      ''  arg                 When provided, the program will read from this file instead of stdin\<newline>\<newline>'',
      ''Exit Codes:\<newline>'',
      ''  0  Success pattern matched\<newline>'',
      ''  1  Failure pattern matched\<newline>'',
      ''  2  Error reading from stdin or opening file\<newline>'',
      ''  3  EOF found but no matching lines were detected\<newline>'']"

definition ext_scanBody :: "'re golib \<Rightarrow> bool \<Rightarrow> 're list \<Rightarrow> 're list \<Rightarrow> string
    \<Rightarrow> 're event list \<times> nat option" where
  "ext_scanBody lib quiet successPatterns failurePatterns line =
     (let processedLine = ext_processLine line;
          start = EvScan line # (if \<not> quiet then [EvPrintln processedLine] else [])
      in case rangePatterns lib successPatterns processedLine of
           (evs, True) \<Rightarrow> (start @ evs, Some 0)
         | (evs, False) \<Rightarrow>
             (case rangePatterns lib failurePatterns processedLine of
                (evf, True) \<Rightarrow> (start @ evs @ evf, Some 1)
              | (evf, False) \<Rightarrow> (start @ evs @ evf, None)))"

fun ext_scanLoop :: "'re golib \<Rightarrow> bool \<Rightarrow> 're list \<Rightarrow> 're list \<Rightarrow> string list
    \<Rightarrow> 're event list \<times> nat option" where
  "ext_scanLoop lib quiet successPatterns failurePatterns [] = ([], None)"
| "ext_scanLoop lib quiet successPatterns failurePatterns (line # rest) =
     (case ext_scanBody lib quiet successPatterns failurePatterns line of
        (evs, Some status) \<Rightarrow> (evs, Some status)
      | (evs, None) \<Rightarrow>
          (case ext_scanLoop lib quiet successPatterns failurePatterns rest of
             (evs', exit) \<Rightarrow> (evs @ evs', exit)))"

text \<open>From \<^verbatim>\<open>scanner := bufio.NewScanner(input)\<close> to the end of \<^verbatim>\<open>main\<close>.\<close>

definition run_extended :: "'re golib \<Rightarrow> bool \<Rightarrow> 're list \<Rightarrow> 're list \<Rightarrow> stream \<Rightarrow> 're run" where
  "run_extended lib quiet successPatterns failurePatterns input =
     (case ext_scanLoop lib quiet successPatterns failurePatterns (lines input) of
        (evs, Some status) \<Rightarrow> (evs, status)
      | (evs, None) \<Rightarrow>
          (case err input of
             Some e \<Rightarrow> (evs @ [EvStderr (''Error reading from stdin: '' @ e @ ''\<newline>'')], 2)
           | None \<Rightarrow> (evs @ [EvStderr ''EOF found but no matching lines were detected''], 3)))"

text \<open>
  The command line of the extended variant: the pattern flags in their order, the two
  boolean flags and the positional arguments. The environment: standard input, and
  \<^verbatim>\<open>os.Open\<close> answering the text of its error or the file's content.
\<close>

record cmdline =
  patternFlags :: "(kind \<times> string) list"
  quietFlag :: bool
  helpFlag :: bool
  args :: "string list"

record env =
  stdin :: stream
  Open :: "string \<Rightarrow> string + stream"

text \<open>
  \<^verbatim>\<open>main\<close>. \<^verbatim>\<open>flag.Usage = printHelp\<close>: when parsing fails, the usage the \<^verbatim>\<open>flag\<close>
  package prints after its message is \<^verbatim>\<open>printHelp\<close>, which exits with status 99.
\<close>

definition main_extended :: "'re golib \<Rightarrow> cmdline \<Rightarrow> env \<Rightarrow> 're run" where
  "main_extended lib cmd e =
     (case flagParse lib (patternFlags cmd) [] [] of
        Inl msg \<Rightarrow> (EvStderr msg # map EvStderr printHelp, 99)
      | Inr (successPatterns, failurePatterns) \<Rightarrow>
          if helpFlag cmd then (map EvStderr printHelp, 99)
          else (case args cmd of
                  [] \<Rightarrow> run_extended lib (quietFlag cmd) successPatterns failurePatterns (stdin e)
                | [a] \<Rightarrow>
                    (case Open e a of
                       Inl oe \<Rightarrow>
                         ([EvStderr (''Error opening file '' @ [CHR 0x27] @ a @ [CHR 0x27] @ '': ''
                                      @ oe @ ''\<newline>'')], 2)
                     | Inr file \<Rightarrow>
                         run_extended lib (quietFlag cmd) successPatterns failurePatterns file)
                | _ \<Rightarrow>
                    (EvStderr ''Too many positional arguments provided.\<newline>\<newline>''
                       # map EvStderr printHelp, 99)))"

section \<open>Reading a run\<close>

text \<open>The lines a run has read, the lines it has printed, and the run without its printing.\<close>

fun scanned :: "'re event list \<Rightarrow> string list" where
  "scanned [] = []"
| "scanned (EvScan l # evs) = l # scanned evs"
| "scanned (_ # evs) = scanned evs"

fun printed :: "'re event list \<Rightarrow> string list" where
  "printed [] = []"
| "printed (EvPrintln l # evs) = l # printed evs"
| "printed (_ # evs) = printed evs"

fun unprinted :: "'re event list \<Rightarrow> 're event list" where
  "unprinted [] = []"
| "unprinted (EvPrintln l # evs) = unprinted evs"
| "unprinted (ev # evs) = ev # unprinted evs"

text \<open>Some pattern of the list matches the line.\<close>

fun anyMatch :: "'re golib \<Rightarrow> 're list \<Rightarrow> string \<Rightarrow> bool" where
  "anyMatch lib [] l = False"
| "anyMatch lib (p # ps) l = (MatchString lib p l \<or> anyMatch lib ps l)"

text \<open>The line is decisive: once normalized, a success or a failure pattern matches it.\<close>

definition decisive :: "'re golib \<Rightarrow> 're list \<Rightarrow> 're list \<Rightarrow> string \<Rightarrow> bool" where
  "decisive lib successPatterns failurePatterns line =
     (anyMatch lib successPatterns (processLine line) \<or> anyMatch lib failurePatterns (processLine line))"

section \<open>The state machine of the specification\<close>

text \<open>
  \<^verbatim>\<open>READING -> (per line: NORMALIZE -> MATCH_SUCCESS? -> exit(0) | MATCH_FAILURE? -> exit(1) | CONTINUE)
  -> EOF -> exit(0|3) | READ_ERROR -> exit(2)\<close>, written from the specification: the
  exit status for the lines still to be read and the way reading ends, \<open>eof\<close> being the
  status at the end of the input (0 or 3).
\<close>

fun stateMachine :: "nat \<Rightarrow> 're golib \<Rightarrow> 're list \<Rightarrow> 're list \<Rightarrow> string list \<Rightarrow> string option \<Rightarrow> nat" where
  "stateMachine eof lib successPatterns failurePatterns [] None = eof"
| "stateMachine eof lib successPatterns failurePatterns [] (Some e) = 2"
| "stateMachine eof lib successPatterns failurePatterns (line # rest) er =
     (if anyMatch lib successPatterns (processLine line) then 0
      else if anyMatch lib failurePatterns (processLine line) then 1
      else stateMachine eof lib successPatterns failurePatterns rest er)"

section \<open>A regexp package for literal patterns\<close>

text \<open>
  The concrete runs below use patterns without metacharacters, as most of the repository's
  tests do (\<^verbatim>\<open>SUCCESS\<close>, \<^verbatim>\<open>FAILED\<close>, \<^verbatim>\<open>FAISS\<close>). On such a pattern
  \<^verbatim>\<open>regexp.Compile\<close> succeeds and \<^verbatim>\<open>MatchString\<close> is the search for the pattern as a
  substring; the one error kept is the unclosed bracket of \<^verbatim>\<open>TestRegexSliceSet\<close>.
\<close>

fun contains :: "string \<Rightarrow> string \<Rightarrow> bool" where
  "contains [] pat = (pat = [])"
| "contains (c # cs) pat = (take (length pat) (c # cs) = pat \<or> contains cs pat)"

definition literalLib :: "string golib" where
  "literalLib =
     \<lparr>Compile = (\<lambda>s. if CHR ''['' \<in> set s \<and> CHR '']'' \<notin> set s
                      then Inl (''error parsing regexp: missing closing ]: `''
                                  @ dropWhile (\<lambda>c. c \<noteq> CHR ''['') s @ ''`'')
                      else Inr s),
      MatchString = (\<lambda>re s. contains s re),
      Quote = (\<lambda>s. [CHR 0x22] @ s @ [CHR 0x22]),
      defaultUsage = ''Usage of handytail:\<newline>''\<rparr>"

section \<open>Go's regexp package on patterns without metacharacters\<close>

text \<open>
  \<^verbatim>\<open>regexp.Compile\<close> parses the pattern with \<^verbatim>\<open>regexp/syntax\<close>. The part of the
  parser that a pattern of ASCII characters other than
  \<^verbatim>\<open>( | ) ^ $ . [ * + ? { \\<close> runs through is modelled here: the loop of \<^verbatim>\<open>parse\<close>
  (its \<^verbatim>\<open>default\<close> case), \<^verbatim>\<open>literal\<close>, \<^verbatim>\<open>push\<close>, \<^verbatim>\<open>maybeConcat\<close>,
  \<^verbatim>\<open>concat\<close> and \<^verbatim>\<open>alternate\<close>. Every function answers \<open>None\<close> where the Go code
  takes a path that is not modelled (another case of the switch, a byte from
  \<^verbatim>\<open>utf8.RuneSelf\<close> on, a stack the pattern cannot produce, the size limit of
  \<^verbatim>\<open>checkLimits\<close>); the package's answer is then a parameter.

  \<^verbatim>\<open>syntax.Regexp\<close>, with the two operators such a pattern parses to.
\<close>

datatype regex = OpEmptyMatch | OpLiteral "rune list"

text \<open>
  The parser: its stack, the head of the list being the top, and the count of runes
  pushed. \<^verbatim>\<open>maxRunes\<close> is \<^verbatim>\<open>128 << 20 / runeSize\<close>.
\<close>

record parser =
  stack :: "regex list"
  numRunes :: nat

definition maxRunes :: nat where "maxRunes = 33554432"

definition metachars :: string where
  "metachars = [CHR ''('', CHR ''|'', CHR '')'', CHR ''^'', CHR ''$'', CHR ''.'', CHR ''['',
                CHR ''*'', CHR ''+'', CHR ''?'', CHR ''{'', CHR 0x5C]"

text \<open>\<^verbatim>\<open>len(re.Rune)\<close>.\<close>

definition lenRune :: "regex \<Rightarrow> nat" where
  "lenRune re = (case re of OpEmptyMatch \<Rightarrow> 0 | OpLiteral rs \<Rightarrow> length rs)"

text \<open>
  \<^verbatim>\<open>p.maybeConcat(-1, 0)\<close>: when the two regexps on top of the stack are literals (with
  the same flags, as all literals of such a pattern have), the upper one is appended to
  the lower one and popped.
\<close>

fun maybeConcat :: "regex list \<Rightarrow> regex list" where
  "maybeConcat (OpLiteral re1 # OpLiteral re2 # below) = OpLiteral (re2 @ re1) # below"
| "maybeConcat st = st"

text \<open>
  \<^verbatim>\<open>p.push(re)\<close> for a regexp that is no character class: count its runes, merge the
  literals on top, push, and \<^verbatim>\<open>checkLimits\<close>.
\<close>

definition push :: "regex \<Rightarrow> parser \<Rightarrow> parser option" where
  "push re p =
     (let n = numRunes p + lenRune re
      in if n > maxRunes then None
         else Some \<lparr>stack = re # maybeConcat (stack p), numRunes = n\<rparr>)"

definition literal :: "rune \<Rightarrow> parser \<Rightarrow> parser option" where
  "literal r p = push (OpLiteral [r]) p"

text \<open>\<^verbatim>\<open>for t != "" { switch t[0] { default: c, t = nextRune(t); p.literal(c) ... } }\<close>.\<close>

fun parseLoop :: "string \<Rightarrow> parser \<Rightarrow> parser option" where
  "parseLoop [] p = Some p"
| "parseLoop (c # t) p =
     (if c \<in> set metachars \<or> \<not> of_char c < runeSelf then None
      else case literal (of_char c) p of
             None \<Rightarrow> None
           | Some p' \<Rightarrow> parseLoop t p')"

text \<open>
  \<^verbatim>\<open>p.concat()\<close>: the stack holds no \<^verbatim>\<open>(\<close> and no \<^verbatim>\<open>|\<close>, so everything on it is
  taken off as \<^verbatim>\<open>subs\<close>. No regexp gives \<^verbatim>\<open>OpEmptyMatch\<close>; one regexp is what
  \<^verbatim>\<open>collapse\<close> returns for it; more would make an \<^verbatim>\<open>OpConcat\<close>.
\<close>

definition concat_stack :: "parser \<Rightarrow> parser option" where
  "concat_stack p =
     (case maybeConcat (stack p) of
        [] \<Rightarrow> push OpEmptyMatch (p\<lparr>stack := []\<rparr>)
      | [re] \<Rightarrow> push re (p\<lparr>stack := []\<rparr>)
      | _ \<Rightarrow> None)"

text \<open>
  \<^verbatim>\<open>p.alternate()\<close>, after \<^verbatim>\<open>swapVerticalBar\<close> has found no vertical bar: again
  everything is taken off the stack; one regexp is pushed back as it is.
\<close>

definition alternate :: "parser \<Rightarrow> parser option" where
  "alternate p =
     (case stack p of
        [re] \<Rightarrow> push re (p\<lparr>stack := []\<rparr>)
      | _ \<Rightarrow> None)"

text \<open>
  \<^verbatim>\<open>parse(s, flags)\<close> with the flags of \<^verbatim>\<open>syntax.Perl\<close>: the regexp left on the stack.
  \<^verbatim>\<open>Simplify\<close> returns an \<^verbatim>\<open>OpEmptyMatch\<close> and an \<^verbatim>\<open>OpLiteral\<close> as they are.
\<close>

definition parse :: "string \<Rightarrow> regex option" where
  "parse s =
     (case parseLoop s \<lparr>stack = [], numRunes = 0\<rparr> of
        None \<Rightarrow> None
      | Some p \<Rightarrow>
          (case concat_stack p of
             None \<Rightarrow> None
           | Some p' \<Rightarrow>
               (case alternate p' of
                  None \<Rightarrow> None
                | Some p'' \<Rightarrow> (case stack p'' of [re] \<Rightarrow> Some re | _ \<Rightarrow> None))))"

text \<open>
  Matching. The input is read rune by rune as the \<^verbatim>\<open>range\<close> loop reads it
  (\<^verbatim>\<open>inputString.step\<close>). \<open>matchHere\<close>: the regexp matches at the start of the runes;
  \<open>search\<close>: the unanchored search of \<^verbatim>\<open>MatchString\<close>, which tries every position of the
  text, the end of the text too.
\<close>

fun matchHere :: "regex \<Rightarrow> rune list \<Rightarrow> bool" where
  "matchHere OpEmptyMatch rs = True"
| "matchHere (OpLiteral l) rs = (take (length l) rs = l)"

fun search :: "regex \<Rightarrow> rune list \<Rightarrow> bool" where
  "search re [] = matchHere re []"
| "search re (r # rs) = (matchHere re (r # rs) \<or> search re rs)"

text \<open>
  The package: modelled where \<open>parse\<close> answers, and the parameter \<open>rest\<close> elsewhere. A
  compiled pattern is a \<open>regex\<close> of the model or a pattern of \<open>rest\<close>.
\<close>

definition goRegexp :: "'x golib \<Rightarrow> (regex + 'x) golib" where
  "goRegexp rest =
     \<lparr>Compile = (\<lambda>expr. case parse expr of
                           Some re \<Rightarrow> Inr (Inl re)
                         | None \<Rightarrow> (case Compile rest expr of
                                      Inl e \<Rightarrow> Inl e
                                    | Inr x \<Rightarrow> Inr (Inr x))),
      MatchString = (\<lambda>re s. case re of
                              Inl r \<Rightarrow> search r (rangeString s)
                            | Inr x \<Rightarrow> MatchString rest x s),
      Quote = Quote rest,
      defaultUsage = defaultUsage rest\<rparr>"

section \<open>Facts about the constants\<close>

lemmas utf8_consts =
  runeError_def runeSelf_def maxRune_def surrogateMin_def surrogateMax_def
  tx_def t2_def t3_def t4_def t5_def maskx_def mask2_def mask3_def mask4_def
  rune1Max_def rune2Max_def rune3Max_def locb_def hicb_def

section \<open>UTF-8: the bit operations as arithmetic\<close>


lemma and_mask_mod:
  "(x::nat) AND maskx = x mod 64" "(x::nat) AND mask2 = x mod 32"
  "(x::nat) AND mask3 = x mod 16" "(x::nat) AND mask4 = x mod 8"
  using take_bit_eq_mask[of 6 x] take_bit_eq_mask[of 5 x] take_bit_eq_mask[of 4 x] take_bit_eq_mask[of 3 x]
  by (simp_all add: take_bit_eq_mod mask_eq_exp_minus_1 utf8_consts)

lemma or_add_disjoint:
  fixes a b :: nat
  assumes "b < 2 ^ n"
  shows "push_bit n a OR b = a * 2 ^ n + b"
proof -
  have "push_bit n a + b = push_bit n a OR b"
  proof (rule disjunctive_add)
    fix k
    show "\<not> bit (push_bit n a) k \<or> \<not> bit b k"
    proof (cases "k < n")
      case True
      then show ?thesis by (simp add: bit_push_bit_iff)
    next
      case False
      then have "2 ^ n \<le> (2::nat) ^ k" by simp
      with assms have "b < 2 ^ k" by linarith
      then have "b div 2 ^ k = 0" by simp
      then show ?thesis by (simp add: bit_iff_odd)
    qed
  qed
  then show ?thesis by (simp add: push_bit_eq_mult)
qed

lemma decode2_arith:
  "push_bit 6 (s0 AND mask2) OR (s1 AND maskx) = (s0 mod 32) * 64 + s1 mod 64"
  using or_add_disjoint[of "s1 mod 64" 6 "s0 mod 32"] by (simp add: and_mask_mod)

lemma decode3_arith:
  "push_bit 12 (s0 AND mask3) OR push_bit 6 (s1 AND maskx) OR (s2 AND maskx)
     = (s0 mod 16) * 4096 + (s1 mod 64) * 64 + s2 mod 64"
proof -
  have a: "push_bit 6 (s1 mod 64) OR (s2 mod 64) = (s1 mod 64) * 64 + s2 mod 64"
    using or_add_disjoint[of "s2 mod 64" 6 "s1 mod 64"] by simp
  have "(s1 mod 64) * 64 + s2 mod 64 < 2 ^ 12"
  proof -
    have "s1 mod 64 < 64" "s2 mod 64 < 64" by simp_all
    then have "s1 mod 64 \<le> 63" "s2 mod 64 \<le> 63" by linarith+
    then show ?thesis by simp
  qed
  from or_add_disjoint[OF this, of "s0 mod 16"] a show ?thesis
    by (simp add: and_mask_mod or.assoc)
qed

lemma decode4_arith:
  "push_bit 18 (s0 AND mask4) OR push_bit 12 (s1 AND maskx) OR push_bit 6 (s2 AND maskx) OR (s3 AND maskx)
     = (s0 mod 8) * 262144 + (s1 mod 64) * 4096 + (s2 mod 64) * 64 + s3 mod 64"
proof -
  have a: "push_bit 6 (s2 mod 64) OR (s3 mod 64) = (s2 mod 64) * 64 + s3 mod 64"
    using or_add_disjoint[of "s3 mod 64" 6 "s2 mod 64"] by simp
  have "s1 mod 64 < 64" "s2 mod 64 < 64" "s3 mod 64 < 64" by simp_all
  then have le: "s1 mod 64 \<le> 63" "s2 mod 64 \<le> 63" "s3 mod 64 \<le> 63" by linarith+
  have b: "(s2 mod 64) * 64 + s3 mod 64 < 2 ^ 12" using le by simp
  have c: "push_bit 12 (s1 mod 64) OR ((s2 mod 64) * 64 + s3 mod 64)
             = (s1 mod 64) * 4096 + ((s2 mod 64) * 64 + s3 mod 64)"
    using or_add_disjoint[OF b, of "s1 mod 64"] by simp
  have d: "(s1 mod 64) * 4096 + ((s2 mod 64) * 64 + s3 mod 64) < 2 ^ 18" using le by simp
  from or_add_disjoint[OF d, of "s0 mod 8"] a c show ?thesis
    by (simp add: and_mask_mod or.assoc)
qed

lemma byte_small: "x < 256 \<Longrightarrow> byte x = x"
  by (simp add: byte_def)

lemma byte_and_maskx: "byte x AND maskx = x mod 64"
  by (simp add: and_mask_mod byte_def mod_mod_cancel)

lemma tx_or: "tx OR (x mod 64) = 128 + x mod 64"
  using or_add_disjoint[of "x mod 64" 6 2] by (simp add: tx_def)

lemma t2_or: "x < 32 \<Longrightarrow> t2 OR x = 192 + x"
  using or_add_disjoint[of x 5 6] by (simp add: t2_def)

lemma t3_or: "x < 16 \<Longrightarrow> t3 OR x = 224 + x"
  using or_add_disjoint[of x 4 14] by (simp add: t3_def)

lemma t4_or: "x < 8 \<Longrightarrow> t4 OR x = 240 + x"
  using or_add_disjoint[of x 3 30] by (simp add: t4_def)

lemma encoderune_1: "r \<le> 0x7F \<Longrightarrow> encoderune r = [char_of r]"
  by (simp add: encoderune_def rune1Max_def byte_small)

lemma encoderune_2:
  assumes "0x7F < r" "r \<le> 0x7FF"
  shows "encoderune r = [char_of (192 + r div 64), char_of (128 + r mod 64)]"
proof -
  have "r div 64 < 32" using assms by (simp add: less_mult_imp_div_less)
  then show ?thesis using assms
    by (simp add: encoderune_def rune1Max_def rune2Max_def drop_bit_eq_div byte_small
        byte_and_maskx tx_or t2_or)
qed

lemma encode3_arith:
  assumes "r \<le> 0xFFFF"
  shows "encode3 r = [char_of (224 + r div 4096), char_of (128 + (r div 64) mod 64),
                      char_of (128 + r mod 64)]"
proof -
  have "r div 4096 < 16" using assms by (simp add: less_mult_imp_div_less)
  then show ?thesis
    by (simp add: encode3_def drop_bit_eq_div byte_small byte_and_maskx tx_or t3_or)
qed

lemma encoderune_4:
  assumes "0xFFFF < r" "r \<le> 0x10FFFF"
  shows "encoderune r = [char_of (240 + r div 262144), char_of (128 + (r div 4096) mod 64),
                         char_of (128 + (r div 64) mod 64), char_of (128 + r mod 64)]"
proof -
  have "r div 262144 < 8" using assms by (simp add: less_mult_imp_div_less)
  then show ?thesis using assms
    by (simp add: encoderune_def rune1Max_def rune2Max_def rune3Max_def maxRune_def
        surrogateMin_def surrogateMax_def drop_bit_eq_div byte_small byte_and_maskx tx_or t4_or)
qed

lemma encoderune_3:
  assumes "0x7FF < r" "r \<le> 0xFFFF" "\<not> (0xD800 \<le> r \<and> r \<le> 0xDFFF)"
  shows "encoderune r = [char_of (224 + r div 4096), char_of (128 + (r div 64) mod 64),
                         char_of (128 + r mod 64)]"
proof -
  have "encoderune r = encode3 r"
    using assms
    by (auto simp add: encoderune_def rune1Max_def rune2Max_def rune3Max_def maxRune_def
        surrogateMin_def surrogateMax_def)
  then show ?thesis using encode3_arith[of r] assms by simp
qed

lemma ValidRune_cases:
  assumes "ValidRune r"
  obtains (a) "r \<le> 0x7F" | (b) "0x7F < r" "r \<le> 0x7FF"
    | (c) "0x7FF < r" "r \<le> 0xFFFF" "\<not> (0xD800 \<le> r \<and> r \<le> 0xDFFF)"
    | (d) "0xFFFF < r" "r \<le> 0x10FFFF"
proof -
  have v: "r < 0xD800 \<or> (0xDFFF < r \<and> r \<le> 0x10FFFF)"
    using assms by (simp add: ValidRune_def surrogateMin_def surrogateMax_def maxRune_def)
  show thesis
  proof (cases "r \<le> 0x7F")
    case True then show thesis by (rule a)
  next
    case n1: False
    show thesis
    proof (cases "r \<le> 0x7FF")
      case True with n1 show thesis by (intro b) simp_all
    next
      case n2: False
      show thesis
      proof (cases "r \<le> 0xFFFF")
        case True
        from v have "\<not> (0xD800 \<le> r \<and> r \<le> 0xDFFF)" by linarith
        with True n2 show thesis by (intro c) simp_all
      next
        case n3: False
        with v have "r \<le> 0x10FFFF" by linarith
        with n3 show thesis by (intro d) simp_all
      qed
    qed
  qed
qed


lemma div_bounds:
  fixes r :: nat
  assumes "lo * k \<le> r" "r < hi * k" "0 < k"
  shows "lo \<le> r div k" "r div k < hi"
  using assms by (simp_all add: less_eq_div_iff_mult_less_eq less_mult_imp_div_less)

lemma lead_byte:
  fixes x :: nat
  assumes "x < k" "q * k + x < 256"
  shows "of_char (char_of (q * k + x) :: char) = q * k + x" "(q * k + x) mod k = x"
  using assms by simp_all

lemma cont_byte:
  fixes x :: nat
  shows "of_char (char_of (128 + x mod 64) :: char) = 128 + x mod 64"
    "(128 + x mod 64) mod 64 = x mod 64" "cont (128 + x mod 64)"
proof -
  have m: "x mod 64 < 64" by simp
  then show "of_char (char_of (128 + x mod 64) :: char) = 128 + x mod 64" by simp
  show "(128 + x mod 64) mod 64 = x mod 64"
    using mod_mult_self3[of 2 64 "x mod 64"] by simp
  show "cont (128 + x mod 64)" using m by (simp add: cont_def locb_def hicb_def)
qed

lemma split2: "(r::nat) div 64 * 64 + r mod 64 = r"
  by simp

lemma split3: "(r::nat) div 4096 * 4096 + (r div 64) mod 64 * 64 + r mod 64 = r"
proof -
  have "r div 4096 = (r div 64) div 64" by (simp add: div_mult2_eq)
  then have "r div 4096 * 64 + (r div 64) mod 64 = r div 64" by simp
  then have "(r div 4096 * 64 + (r div 64) mod 64) * 64 + r mod 64 = r" by simp
  then show ?thesis by (simp add: algebra_simps)
qed

lemma split4:
  "(r::nat) div 262144 * 262144 + (r div 4096) mod 64 * 4096 + (r div 64) mod 64 * 64 + r mod 64 = r"
proof -
  have "r div 262144 = (r div 4096) div 64" by (simp add: div_mult2_eq)
  then have "r div 262144 * 64 + (r div 4096) mod 64 = r div 4096" by simp
  then have "(r div 262144 * 64 + (r div 4096) mod 64) * 4096 + (r div 64) mod 64 * 64 + r mod 64 = r"
    using split3[of r] by simp
  then show ?thesis by (simp add: algebra_simps)
qed

lemma decoderune_1: "r \<le> 0x7F \<Longrightarrow> decoderune (char_of r) cs = (r, 1)"
  by (simp add: decoderune_def runeSelf_def Let_def)

lemma decoderune_2:
  assumes "0x7F < r" "r \<le> 0x7FF"
  shows "decoderune (char_of (192 + r div 64)) (char_of (128 + r mod 64) # cs) = (r, 2)"
proof -
  have d: "2 \<le> r div 64" "r div 64 < 32" using div_bounds[of 2 64 r 32] assms by simp_all
  have l: "of_char (char_of (192 + r div 64) :: char) = 192 + r div 64"
    "(192 + r div 64) mod 32 = r div 64"
    using lead_byte[of "r div 64" 32 6] d by simp_all
  have "decode2 (192 + r div 64) ((128 + r mod 64) # map of_char cs) = Some (r, 2)"
    using assms unfolding decode2_def decode2_arith
    by (simp add: cont_byte l split2 rune1Max_def)
  then show ?thesis using d
    by (simp add: decoderune_def Let_def l cont_byte runeSelf_def t2_def t3_def del: of_char_of)
qed

lemma decoderune_3:
  assumes "0x7FF < r" "r \<le> 0xFFFF" "\<not> (0xD800 \<le> r \<and> r \<le> 0xDFFF)"
  shows "decoderune (char_of (224 + r div 4096))
           (char_of (128 + (r div 64) mod 64) # char_of (128 + r mod 64) # cs) = (r, 3)"
proof -
  have d: "r div 4096 < 16" using div_bounds[of 0 4096 r 16] assms by simp
  have l: "of_char (char_of (224 + r div 4096) :: char) = 224 + r div 4096"
    "(224 + r div 4096) mod 16 = r div 4096"
    using lead_byte[of "r div 4096" 16 14] d by simp_all
  have "decode3 (224 + r div 4096) ((128 + (r div 64) mod 64) # (128 + r mod 64) # map of_char cs)
          = Some (r, 3)"
    using assms unfolding decode3_def decode3_arith
    by (simp add: cont_byte l split3 rune2Max_def surrogateMin_def surrogateMax_def)
  then show ?thesis using d
    by (simp add: decoderune_def Let_def l cont_byte runeSelf_def t2_def t3_def t4_def
        del: of_char_of)
qed

lemma decoderune_4:
  assumes "0xFFFF < r" "r \<le> 0x10FFFF"
  shows "decoderune (char_of (240 + r div 262144))
           (char_of (128 + (r div 4096) mod 64) # char_of (128 + (r div 64) mod 64)
              # char_of (128 + r mod 64) # cs) = (r, 4)"
proof -
  have d: "r div 262144 < 8" using div_bounds[of 0 262144 r 8] assms by simp
  have l: "of_char (char_of (240 + r div 262144) :: char) = 240 + r div 262144"
    "(240 + r div 262144) mod 8 = r div 262144"
    using lead_byte[of "r div 262144" 8 30] d by simp_all
  have "decode4 (240 + r div 262144)
          ((128 + (r div 4096) mod 64) # (128 + (r div 64) mod 64) # (128 + r mod 64) # map of_char cs)
          = Some (r, 4)"
    using assms unfolding decode4_def decode4_arith
    by (simp add: cont_byte l split4 rune3Max_def maxRune_def)
  then show ?thesis using d
    by (simp add: decoderune_def Let_def l cont_byte runeSelf_def t2_def t3_def t4_def t5_def
        del: of_char_of)
qed

lemma rangeString_encoderune:
  assumes "ValidRune r"
  shows "rangeString (encoderune r @ bs) = r # rangeString bs"
  using assms
proof (cases r rule: ValidRune_cases)
  case a
  then show ?thesis by (simp add: encoderune_1 decoderune_1)
next
  case b
  then show ?thesis by (simp add: encoderune_2 decoderune_2)
next
  case c
  then show ?thesis by (simp add: encoderune_3 decoderune_3)
next
  case d
  then show ?thesis by (simp add: encoderune_4 decoderune_4)
qed

lemma rangeString_slicerunetostring:
  "list_all ValidRune rs \<Longrightarrow> rangeString (slicerunetostring rs @ bs) = rs @ rangeString bs"
  by (induction rs) (simp_all add: rangeString_encoderune)

section \<open>UTF-8: decoding and encoding are inverse\<close>


lemma decode2_valid:
  assumes "decode2 s0 s = Some (r, n)"
  shows "0x7F < r \<and> r \<le> 0x7FF \<and> n = 2"
proof -
  from assms obtain s1 s' where s: "s = s1 # s'" 
    and r: "r = (s0 mod 32) * 64 + s1 mod 64" and n: "n = 2" and lo: "rune1Max < r"
    unfolding decode2_def decode2_arith
    by (auto simp: Let_def split: list.splits if_splits)
  have "s0 mod 32 < 32" "s1 mod 64 < 64" by simp_all
  then have "s0 mod 32 \<le> 31" "s1 mod 64 \<le> 63" by linarith+
  then have "r \<le> 31 * 64 + 63" unfolding r by (meson add_mono mult_le_mono1)
  then show ?thesis using lo n by (simp add: rune1Max_def)
qed

lemma decode3_valid:
  assumes "decode3 s0 s = Some (r, n)"
  shows "0x7FF < r \<and> r \<le> 0xFFFF \<and> \<not> (0xD800 \<le> r \<and> r \<le> 0xDFFF) \<and> n = 3"
proof -
  from assms obtain s1 s2 s' where s: "s = s1 # s2 # s'" 
    and r: "r = (s0 mod 16) * 4096 + (s1 mod 64) * 64 + s2 mod 64" and n: "n = 3"
    and lo: "rune2Max < r" "\<not> (surrogateMin \<le> r \<and> r \<le> surrogateMax)"
    unfolding decode3_def decode3_arith
    by (auto simp: Let_def split: list.splits if_splits)
  have "s0 mod 16 < 16" "s1 mod 64 < 64" "s2 mod 64 < 64" by simp_all
  then have "s0 mod 16 \<le> 15" "s1 mod 64 \<le> 63" "s2 mod 64 \<le> 63" by linarith+
  then have "r \<le> 15 * 4096 + 63 * 64 + 63" unfolding r by (meson add_mono mult_le_mono1)
  then show ?thesis using lo n by (simp add: rune2Max_def surrogateMin_def surrogateMax_def)
qed

lemma decode4_valid:
  assumes "decode4 s0 s = Some (r, n)"
  shows "0xFFFF < r \<and> r \<le> 0x10FFFF \<and> n = 4"
  using assms unfolding decode4_def
  by (auto simp: Let_def rune3Max_def maxRune_def split: list.splits if_splits)

lemma ValidRune_runeError: "ValidRune runeError"
  by (simp add: ValidRune_def utf8_consts)

lemma decoderune_ValidRune: "ValidRune (fst (decoderune c cs))"
proof -
  have v2: "ValidRune r" if "decode2 s0 s = Some (r, n)" for s0 s r n
    using decode2_valid[OF that] by (simp add: ValidRune_def utf8_consts)
  have v3: "ValidRune r" if "decode3 s0 s = Some (r, n)" for s0 s r n
    using decode3_valid[OF that] by (simp add: ValidRune_def utf8_consts) linarith
  have v4: "ValidRune r" if "decode4 s0 s = Some (r, n)" for s0 s r n
    using decode4_valid[OF that] by (simp add: ValidRune_def utf8_consts)
  have v1: "ValidRune r" if "r < runeSelf" for r
    using that by (simp add: ValidRune_def utf8_consts)
  show ?thesis
    unfolding decoderune_def Let_def
    by (auto split: option.splits simp: ValidRune_runeError v1 dest: v2 v3 v4)
qed

lemma rangeString_ValidRune: "list_all ValidRune (rangeString s)"
  by (induction s rule: rangeString.induct) (simp_all add: decoderune_ValidRune)

lemma lead_inv:
  fixes s0 :: nat
  assumes "q * k \<le> s0" "s0 < q * k + k"
  shows "q * k + s0 mod k = s0"
proof -
  define x where "x = s0 - q * k"
  have x: "s0 = q * k + x" "x < k" using assms by (simp_all add: x_def)
  then show ?thesis by simp
qed

lemma cont_inv: "cont s1 \<Longrightarrow> 128 + s1 mod 64 = s1"
  using lead_inv[of 2 64 s1] by (simp add: cont_def locb_def hicb_def)

lemma join2: "b < 64 \<Longrightarrow> (a * 64 + b) div 64 = a \<and> (a * 64 + b) mod 64 = (b::nat)"
  by simp

lemma join3:
  fixes a b c :: nat
  assumes "b < 64" "c < 64"
  shows "(a * 4096 + b * 64 + c) div 4096 = a" "(a * 4096 + b * 64 + c) div 64 mod 64 = b"
    "(a * 4096 + b * 64 + c) mod 64 = c"
proof -
  have e: "a * 4096 + b * 64 + c = (a * 64 + b) * 64 + c" by simp
  have j: "((a * 64 + b) * 64 + c) div 64 = a * 64 + b" "((a * 64 + b) * 64 + c) mod 64 = c"
    using join2[of c "a * 64 + b"] assms by blast+
  have k: "(a * 64 + b) div 64 = a" "(a * 64 + b) mod 64 = b"
    using join2[of b a] assms by blast+
  show "(a * 4096 + b * 64 + c) div 64 mod 64 = b" by (simp only: e j k)
  show "(a * 4096 + b * 64 + c) mod 64 = c" by (simp only: e j)
  have "(a * 4096 + b * 64 + c) div 4096 = (a * 4096 + b * 64 + c) div 64 div 64"
    by (simp add: div_mult2_eq)
  then show "(a * 4096 + b * 64 + c) div 4096 = a" by (simp only: e j k)
qed

lemma join4:
  fixes a b c d :: nat
  assumes "b < 64" "c < 64" "d < 64"
  shows "(a * 262144 + b * 4096 + c * 64 + d) div 262144 = a"
    "(a * 262144 + b * 4096 + c * 64 + d) div 4096 mod 64 = b"
    "(a * 262144 + b * 4096 + c * 64 + d) div 64 mod 64 = c"
    "(a * 262144 + b * 4096 + c * 64 + d) mod 64 = d"
proof -
  have e: "a * 262144 + b * 4096 + c * 64 + d = (a * 64 + b) * 4096 + c * 64 + d" by simp
  have j: "((a * 64 + b) * 4096 + c * 64 + d) div 4096 = a * 64 + b"
    "((a * 64 + b) * 4096 + c * 64 + d) div 64 mod 64 = c"
    "((a * 64 + b) * 4096 + c * 64 + d) mod 64 = d"
    using join3[of c d "a * 64 + b"] assms by blast+
  have k: "(a * 64 + b) div 64 = a" "(a * 64 + b) mod 64 = b"
    using join2[of b a] assms by blast+
  show "(a * 262144 + b * 4096 + c * 64 + d) div 64 mod 64 = c" by (simp only: e j)
  show "(a * 262144 + b * 4096 + c * 64 + d) mod 64 = d" by (simp only: e j)
  show "(a * 262144 + b * 4096 + c * 64 + d) div 4096 mod 64 = b" by (simp only: e j k)
  have "(a * 262144 + b * 4096 + c * 64 + d) div 262144
          = (a * 262144 + b * 4096 + c * 64 + d) div 4096 div 64"
    by (simp add: div_mult2_eq)
  then show "(a * 262144 + b * 4096 + c * 64 + d) div 262144 = a" by (simp only: e j k)
qed

lemma encoderune_decode2:
  assumes "t2 \<le> s0" "s0 < t3" "decode2 s0 (s1 # s) = Some (r, n)"
  shows "encoderune r = [char_of s0, char_of s1] \<and> n = 2"
proof -
  from assms(3) have c: "cont s1" and r: "r = (s0 mod 32) * 64 + s1 mod 64"
    unfolding decode2_def decode2_arith by (auto simp: Let_def split: if_splits)
  have b: "0x7F < r" "r \<le> 0x7FF" and n: "n = 2"
    using decode2_valid[OF assms(3)] by simp_all
  have m: "s1 mod 64 < 64" by simp
  have d: "r div 64 = s0 mod 32" "r mod 64 = s1 mod 64"
    unfolding r using join2[OF m, of "s0 mod 32"] by blast+
  have l: "192 + s0 mod 32 = s0"
    using lead_inv[of 6 32 s0] assms(1,2) by (simp add: t2_def t3_def)
  have "encoderune r = [char_of (192 + r div 64), char_of (128 + r mod 64)]"
    using b by (rule encoderune_2)
  then show ?thesis by (simp only: d l cont_inv[OF c] n simp_thms)
qed

lemma encoderune_decode3:
  assumes "t3 \<le> s0" "s0 < t4" "decode3 s0 (s1 # s2 # s) = Some (r, n)"
  shows "encoderune r = [char_of s0, char_of s1, char_of s2] \<and> n = 3"
proof -
  from assms(3) have c: "cont s1" "cont s2"
    and r: "r = (s0 mod 16) * 4096 + (s1 mod 64) * 64 + s2 mod 64"
    unfolding decode3_def decode3_arith by (auto simp: Let_def split: if_splits)
  have b: "0x7FF < r" "r \<le> 0xFFFF" "\<not> (0xD800 \<le> r \<and> r \<le> 0xDFFF)" and n: "n = 3"
    using decode3_valid[OF assms(3)] by simp_all
  have m: "s1 mod 64 < 64" "s2 mod 64 < 64" by simp_all
  have d: "r div 4096 = s0 mod 16" "r div 64 mod 64 = s1 mod 64" "r mod 64 = s2 mod 64"
    unfolding r by (rule join3[OF m])+
  have l: "224 + s0 mod 16 = s0"
    using lead_inv[of 14 16 s0] assms(1,2) by (simp add: t3_def t4_def)
  have "encoderune r = [char_of (224 + r div 4096), char_of (128 + (r div 64) mod 64),
                         char_of (128 + r mod 64)]"
    using b by (rule encoderune_3)
  then show ?thesis by (simp only: d l c[THEN cont_inv] n simp_thms)
qed

lemma encoderune_decode4:
  assumes "t4 \<le> s0" "s0 < t5" "decode4 s0 (s1 # s2 # s3 # s) = Some (r, n)"
  shows "encoderune r = [char_of s0, char_of s1, char_of s2, char_of s3] \<and> n = 4"
proof -
  from assms(3) have c: "cont s1" "cont s2" "cont s3"
    and r: "r = (s0 mod 8) * 262144 + (s1 mod 64) * 4096 + (s2 mod 64) * 64 + s3 mod 64"
    unfolding decode4_def decode4_arith by (auto simp: Let_def split: if_splits)
  have b: "0xFFFF < r" "r \<le> 0x10FFFF" and n: "n = 4"
    using decode4_valid[OF assms(3)] by simp_all
  have m: "s1 mod 64 < 64" "s2 mod 64 < 64" "s3 mod 64 < 64" by simp_all
  have d: "r div 262144 = s0 mod 8" "r div 4096 mod 64 = s1 mod 64"
    "r div 64 mod 64 = s2 mod 64" "r mod 64 = s3 mod 64"
    unfolding r by (rule join4[OF m])+
  have l: "240 + s0 mod 8 = s0"
    using lead_inv[of 30 8 s0] assms(1,2) by (simp add: t4_def t5_def)
  have "encoderune r = [char_of (240 + r div 262144), char_of (128 + (r div 4096) mod 64),
                         char_of (128 + (r div 64) mod 64), char_of (128 + r mod 64)]"
    using b by (rule encoderune_4)
  then show ?thesis by (simp only: d l c[THEN cont_inv] n simp_thms)
qed

lemma decode2_Cons: "decode2 s0 s = Some rn \<Longrightarrow> \<exists>s1 s'. s = s1 # s'"
  by (auto simp: decode2_def split: list.splits)

lemma decode3_Cons: "decode3 s0 s = Some rn \<Longrightarrow> \<exists>s1 s2 s'. s = s1 # s2 # s'"
  by (auto simp: decode3_def split: list.splits)

lemma decode4_Cons: "decode4 s0 s = Some rn \<Longrightarrow> \<exists>s1 s2 s3 s'. s = s1 # s2 # s3 # s'"
  by (auto simp: decode4_def split: list.splits)

lemma encoderune_decoderune:
  assumes "decoderune c cs \<noteq> (runeError, 1)"
  shows "encoderune (fst (decoderune c cs)) = take (snd (decoderune c cs)) (c # cs)
         \<and> snd (decoderune c cs) \<le> length (c # cs)"
proof (cases "of_char c < runeSelf")
  case True
  then show ?thesis by (simp add: decoderune_def Let_def runeSelf_def encoderune_1)
next
  case n1: False
  show ?thesis
  proof (cases "t2 \<le> of_char c \<and> of_char c < t3")
    case True
    with n1 assms obtain r n where d: "decode2 (of_char c) (map of_char cs) = Some (r, n)"
      and e: "decoderune c cs = (r, n)"
      by (auto simp: decoderune_def Let_def split: option.splits)
    from decode2_Cons[OF d] obtain c1 cs' where cs: "cs = c1 # cs'" by auto
    from encoderune_decode2[of "of_char c" "of_char c1" "map of_char cs'" r n] True d
    have "encoderune r = [c, c1] \<and> n = 2" by (simp add: cs)
    then show ?thesis unfolding e by (simp add: cs)
  next
    case n2: False
    show ?thesis
    proof (cases "t3 \<le> of_char c \<and> of_char c < t4")
      case True
      with n1 n2 assms obtain r n where d: "decode3 (of_char c) (map of_char cs) = Some (r, n)"
        and e: "decoderune c cs = (r, n)"
        by (auto simp: decoderune_def Let_def split: option.splits)
      from decode3_Cons[OF d] obtain c1 c2 cs' where cs: "cs = c1 # c2 # cs'" by auto
      from encoderune_decode3[of "of_char c" "of_char c1" "of_char c2" "map of_char cs'" r n]
        True d
      have "encoderune r = [c, c1, c2] \<and> n = 3" by (simp add: cs)
      then show ?thesis unfolding e by (simp add: cs)
    next
      case n3: False
      show ?thesis
      proof (cases "t4 \<le> of_char c \<and> of_char c < t5")
        case True
        with n1 n2 n3 assms obtain r n
          where d: "decode4 (of_char c) (map of_char cs) = Some (r, n)"
          and e: "decoderune c cs = (r, n)"
          by (auto simp: decoderune_def Let_def split: option.splits)
        from decode4_Cons[OF d] obtain c1 c2 c3 cs' where cs: "cs = c1 # c2 # c3 # cs'" by auto
        from encoderune_decode4[of "of_char c" "of_char c1" "of_char c2" "of_char c3"
            "map of_char cs'" r n] True d
        have "encoderune r = [c, c1, c2, c3] \<and> n = 4" by (simp add: cs)
        then show ?thesis unfolding e by (simp add: cs)
      next
        case False
        with n1 n2 n3 have "decoderune c cs = (runeError, 1)"
          by (auto simp add: decoderune_def Let_def)
        with assms show ?thesis by simp
      qed
    qed
  qed
qed

lemma slicerunetostring_rangeString:
  "ValidString s \<Longrightarrow> slicerunetostring (rangeString s) = s"
proof (induction s rule: rangeString.induct)
  case 1
  then show ?case by simp
next
  case (2 c cs)
  from "2.prems" have ne: "decoderune c cs \<noteq> (runeError, 1)"
    and v: "ValidString (drop (snd (decoderune c cs)) (c # cs))"
    by (simp_all split: if_splits)
  from encoderune_decoderune[OF ne] "2.IH"[OF v] show ?case
    by (simp del: drop.simps take.simps)
qed

section \<open>The normalizer's loop\<close>


lemma processLine_loop_append:
  "processLine_loop result (rs @ rs') = processLine_loop (processLine_loop result rs) rs'"
  by (induction rs arbitrary: result) simp_all

lemma processLine_loop_snoc:
  "processLine_loop result (rs @ [c]) = processLine_step (processLine_loop result rs) c"
  by (simp add: processLine_loop_append)

lemma processLine_step_length: "length (processLine_step result c) \<le> Suc (length result)"
  by (auto simp add: processLine_step_def)

lemma processLine_loop_length:
  "length (processLine_loop result rs) \<le> length result + length rs"
proof (induction rs arbitrary: result)
  case Nil
  then show ?case by simp
next
  case (Cons c rs)
  have "length (processLine_loop (processLine_step result c) rs)
          \<le> length (processLine_step result c) + length rs"
    by (rule Cons.IH)
  also have "\<dots> \<le> Suc (length result) + length rs"
    using processLine_step_length[of result c] by simp
  finally show ?case by simp
qed

lemma processLine_step_set:
  "set (processLine_step result c) \<subseteq> set result \<union> {r. r = c \<and> c \<noteq> 8 \<and> \<not> IsControl c}"
  by (auto simp: processLine_step_def dest: in_set_takeD)

lemma processLine_loop_set:
  "set (processLine_loop result rs) \<subseteq> set result \<union> {r \<in> set rs. r \<noteq> 8 \<and> \<not> IsControl r}"
proof (induction rs arbitrary: result)
  case Nil
  then show ?case by simp
next
  case (Cons c rs)
  show ?case using Cons.IH[of "processLine_step result c"] processLine_step_set[of result c]
    by auto
qed

lemma IsControl_backspace: "IsControl 8"
  by (simp add: IsControl_def MaxLatin1_def properties_pC_def)

lemma processLine_loop_no_control:
  "\<forall>r \<in> set rs. \<not> IsControl r \<Longrightarrow> processLine_loop result rs = result @ rs"
proof (induction rs arbitrary: result)
  case Nil
  then show ?case by simp
next
  case (Cons c rs)
  then have "\<not> IsControl c" by simp
  then have "c \<noteq> 8" using IsControl_backspace by auto
  with \<open>\<not> IsControl c\<close> have "processLine_step result c = result @ [c]"
    by (simp add: processLine_step_def)
  with Cons show ?case by simp
qed

lemma rangeString_processLine:
  "rangeString (processLine line) = processLine_loop [] (rangeString line)"
proof -
  have "list_all ValidRune (processLine_loop [] (rangeString line))"
    using processLine_loop_set[of "[]" "rangeString line"] rangeString_ValidRune[of line]
    by (auto simp: list_all_iff)
  from rangeString_slicerunetostring[OF this, of "[]"] show ?thesis
    by (simp add: processLine_def)
qed

lemma processLine_output_no_control:
  "r \<in> set (rangeString (processLine line)) \<Longrightarrow> \<not> IsControl r \<and> r \<noteq> 8"
  using processLine_loop_set[of "[]" "rangeString line"]
  by (auto simp: rangeString_processLine)

lemma ext_processLine_loop_eq: "ext_processLine_loop result rs = processLine_loop result rs"
  by (induction rs arbitrary: result) (simp_all add: ext_processLine_step_def processLine_step_def)

lemma ext_processLine_eq: "ext_processLine line = processLine line"
  by (simp add: ext_processLine_def processLine_def ext_processLine_loop_eq)

lemma IsControl_iff: "IsControl c \<longleftrightarrow> c \<le> 0x1F \<or> (0x7F \<le> c \<and> c \<le> 0x9F)"
  by (auto simp: IsControl_def MaxLatin1_def properties_pC_def)

section \<open>The claims about the normalizer\<close>

text \<open>
  C1: for every raw input line, \<^verbatim>\<open>processLine\<close> (of either variant) scans the code
  points of the line from left to right with an output buffer that starts empty. After
  the code points \<open>rs\<close> followed by \<open>c\<close> the buffer is the buffer after \<open>rs\<close>, changed
  by \<open>c\<close>: a backspace (code point 8) removes its last code point, and does nothing when
  it is empty; any other control character (Unicode category Cc, the code points
  \<open>0x00 .. 0x1F\<close> and \<open>0x7F .. 0x9F\<close>) leaves it as it is; every other code point is
  appended unchanged. The result is the final buffer: it is the buffer's UTF-8 text, and
  its code points are the buffer's.
\<close>

theorem processLine_scans_with_buffer:
  "processLine line = slicerunetostring (processLine_loop [] (rangeString line))
   \<and> ext_processLine line = processLine line
   \<and> rangeString (processLine line) = processLine_loop [] (rangeString line)
   \<and> processLine_loop [] [] = []
   \<and> processLine_loop [] (rs @ [c]) =
        (if c = 8 then
           (if processLine_loop [] rs = [] then [] else butlast (processLine_loop [] rs))
         else if IsControl c then processLine_loop [] rs
         else processLine_loop [] rs @ [c])
   \<and> (IsControl c \<longleftrightarrow> c \<le> 0x1F \<or> (0x7F \<le> c \<and> c \<le> 0x9F))"
proof -
  have "processLine_loop [] (rs @ [c]) =
        (if c = 8 then
           (if processLine_loop [] rs = [] then [] else butlast (processLine_loop [] rs))
         else if IsControl c then processLine_loop [] rs
         else processLine_loop [] rs @ [c])"
    by (simp add: processLine_loop_snoc processLine_step_def butlast_conv_take)
  then show ?thesis
    using IsControl_iff[of c]
    by (simp only: processLine_def[symmetric] rangeString_processLine ext_processLine_eq
        processLine_loop.simps simp_thms)
qed

theorem processLine_scans_with_buffer_witness:
  "processLine (''hello'' @ [CHR 0x08, CHR 0x0D] @ ''wo'' @ [CHR 0x09] @ ''rld''
                 @ [CHR 0x08, CHR 0x08, CHR 0x08, CHR 0x1B] @ '' test'') = ''hellwo test''
   \<and> processLine_loop [] ([0x68, 0x69] @ [8]) = [0x68]"
proof -
  let ?l = "''hello'' @ [CHR 0x08, CHR 0x0D] @ ''wo'' @ [CHR 0x09] @ ''rld''
              @ [CHR 0x08, CHR 0x08, CHR 0x08, CHR 0x1B] @ '' test''"
  let ?rs = "[0x68, 0x69] :: rune list"
  have e: "slicerunetostring (processLine_loop [] (rangeString ?l)) = ''hellwo test''"
    by code_simp
  have b: "(if (8::rune) = 8 then
              (if processLine_loop [] ?rs = [] then [] else butlast (processLine_loop [] ?rs))
            else if IsControl 8 then processLine_loop [] ?rs
            else processLine_loop [] ?rs @ [8]) = [0x68]"
    by code_simp
  from processLine_scans_with_buffer[of ?l ?rs 8]
  have "processLine ?l = slicerunetostring (processLine_loop [] (rangeString ?l))"
    and "processLine_loop [] (?rs @ [8]) =
          (if (8::rune) = 8 then
              (if processLine_loop [] ?rs = [] then [] else butlast (processLine_loop [] ?rs))
            else if IsControl 8 then processLine_loop [] ?rs
            else processLine_loop [] ?rs @ [8])"
    by blast+
  then show ?thesis unfolding e b by (rule conjI)
qed

text \<open>
  C4: for every input string \<open>x\<close>, normalizing the normalized line changes nothing:
  \<^verbatim>\<open>processLine(processLine(x)) == processLine(x)\<close>, in both variants, and no code point
  of \<^verbatim>\<open>processLine(x)\<close> is a backspace or another control character.
\<close>

theorem processLine_idempotent:
  "processLine (processLine x) = processLine x
   \<and> ext_processLine (ext_processLine x) = ext_processLine x
   \<and> \<not> list_ex (\<lambda>r. r = 8 \<or> IsControl r) (rangeString (processLine x))"
proof -
  have nc: "\<forall>r \<in> set (rangeString (processLine x)). \<not> IsControl r"
    using processLine_output_no_control[of _ x] by blast
  have "processLine (processLine x)
          = slicerunetostring (processLine_loop [] (rangeString (processLine x)))"
    by (simp add: processLine_def)
  also have "\<dots> = slicerunetostring (rangeString (processLine x))"
    using processLine_loop_no_control[OF nc, of "[]"] by simp
  also have "\<dots> = slicerunetostring (processLine_loop [] (rangeString x))"
    by (simp only: rangeString_processLine)
  also have "\<dots> = processLine x"
    by (simp only: processLine_def)
  finally have "processLine (processLine x) = processLine x" .
  moreover have "\<not> list_ex (\<lambda>r. r = 8 \<or> IsControl r) (rangeString (processLine x))"
    using processLine_output_no_control[of _ x] by (auto simp: list_ex_iff)
  ultimately show ?thesis by (simp add: ext_processLine_eq)
qed

theorem processLine_idempotent_witness:
  "processLine (''FAILUCESS'' @ replicate 6 (CHR 0x08) @ ''SS'') = ''FAISS''
   \<and> processLine ''FAISS'' = ''FAISS''
   \<and> \<not> list_ex (\<lambda>r. r = 8 \<or> IsControl r) (rangeString ''FAISS'')"
proof -
  have e: "processLine (''FAILUCESS'' @ replicate 6 (CHR 0x08) @ ''SS'') = ''FAISS''"
    by code_simp
  from processLine_idempotent[of "''FAILUCESS'' @ replicate 6 (CHR 0x08) @ ''SS''"]
  show ?thesis unfolding e by simp
qed

text \<open>
  C6: for every input string \<open>x\<close>, the length of \<^verbatim>\<open>processLine(x)\<close> in code points is
  at most the length of \<open>x\<close> in code points.
\<close>

theorem processLine_length:
  "RuneCountInString (processLine x) \<le> RuneCountInString x"
  using processLine_loop_length[of "[]" "rangeString x"]
  by (simp add: RuneCountInString_def rangeString_processLine)

theorem processLine_length_witness:
  "RuneCountInString (processLine (''test'' @ replicate 4 (CHR 0x08))) = 0
   \<and> RuneCountInString (''test'' @ replicate 4 (CHR 0x08)) = 8
   \<and> RuneCountInString (processLine [CHR 0xFF]) \<le> RuneCountInString [CHR 0xFF]"
proof -
  have "RuneCountInString (processLine (''test'' @ replicate 4 (CHR 0x08))) = 0"
    "RuneCountInString (''test'' @ replicate 4 (CHR 0x08)) = 8"
    by code_simp+
  with processLine_length[of "[CHR 0xFF]"] show ?thesis by simp
qed

text \<open>
  C7, as the claim states it: for every input string \<open>x\<close> with no control character,
  \<^verbatim>\<open>processLine(x) == x\<close>. It fails on a string that is not well-formed UTF-8: the
  \<^verbatim>\<open>range\<close> loop reads the byte \<open>0xFF\<close> as the code point \<open>U+FFFD\<close>, which is no
  control character, and the result holds the three bytes of \<open>U+FFFD\<close>.
\<close>

theorem processLine_identity_counterexample:
  "\<not> list_ex IsControl (rangeString [CHR 0xFF])
   \<and> processLine [CHR 0xFF] = [CHR 0xEF, CHR 0xBF, CHR 0xBD]
   \<and> processLine [CHR 0xFF] \<noteq> [CHR 0xFF]"
  by code_simp

text \<open>
  C7, amended: for every input string \<open>x\<close> that is well-formed UTF-8 and has no control
  character, \<^verbatim>\<open>processLine(x) == x\<close>.
\<close>

theorem processLine_identity:
  assumes "ValidString x" and "\<not> list_ex IsControl (rangeString x)"
  shows "processLine x = x"
proof -
  from assms(2) have "\<forall>r \<in> set (rangeString x). \<not> IsControl r"
    by (simp add: list_ex_iff)
  then have "processLine_loop [] (rangeString x) = rangeString x"
    using processLine_loop_no_control[of "rangeString x" "[]"] by simp
  then show ?thesis
    using slicerunetostring_rangeString[OF assms(1)] by (simp add: processLine_def)
qed


theorem processLine_identity_witness:
  "ValidString (''hello '' @ [CHR 0xE4, CHR 0xB8, CHR 0x96, CHR 0xE7, CHR 0x95, CHR 0x8C])
   \<and> \<not> list_ex IsControl
         (rangeString (''hello '' @ [CHR 0xE4, CHR 0xB8, CHR 0x96, CHR 0xE7, CHR 0x95, CHR 0x8C]))
   \<and> processLine (''hello '' @ [CHR 0xE4, CHR 0xB8, CHR 0x96, CHR 0xE7, CHR 0x95, CHR 0x8C])
       = ''hello '' @ [CHR 0xE4, CHR 0xB8, CHR 0x96, CHR 0xE7, CHR 0x95, CHR 0x8C]"
proof -
  let ?x = "''hello '' @ [CHR 0xE4, CHR 0xB8, CHR 0x96, CHR 0xE7, CHR 0x95, CHR 0x8C]"
  have v: "ValidString ?x" by code_simp
  have c: "\<not> list_ex IsControl (rangeString ?x)" by code_simp
  from processLine_identity[OF v c] v c show ?thesis by blast
qed

section \<open>The pattern loops and the scanner loop\<close>


lemma rangePatterns_hit: "snd (rangePatterns lib ps l) = anyMatch lib ps l"
  by (induction ps) (auto split: prod.splits)

lemma rangePatterns_none:
  "\<not> anyMatch lib ps l \<Longrightarrow> rangePatterns lib ps l = (map (\<lambda>q. EvMatch q l) ps, False)"
  by (induction ps) auto

lemma rangePatterns_first:
  "\<not> anyMatch lib pre l \<Longrightarrow> MatchString lib p l \<Longrightarrow>
   rangePatterns lib (pre @ p # post) l = (map (\<lambda>q. EvMatch q l) (pre @ [p]), True)"
  by (induction pre) auto

lemma anyMatch_append: "anyMatch lib (ps @ qs) l = (anyMatch lib ps l \<or> anyMatch lib qs l)"
  by (induction ps) auto

lemma anyMatch_iff: "anyMatch lib ps l = (\<exists>p \<in> set ps. MatchString lib p l)"
  by (induction ps) auto

lemma scanBody_status:
  "snd (scanBody lib sp fp line) =
     (if anyMatch lib sp (processLine line) then Some 0
      else if anyMatch lib fp (processLine line) then Some 1 else None)"
  using rangePatterns_hit[of lib sp "processLine line"] rangePatterns_hit[of lib fp "processLine line"]
  by (auto simp: scanBody_def Let_def split: prod.splits bool.splits)

lemma ext_scanBody_status:
  "snd (ext_scanBody lib quiet sp fp line) =
     (if anyMatch lib sp (processLine line) then Some 0
      else if anyMatch lib fp (processLine line) then Some 1 else None)"
  using rangePatterns_hit[of lib sp "processLine line"] rangePatterns_hit[of lib fp "processLine line"]
  by (auto simp: ext_scanBody_def ext_processLine_eq Let_def split: prod.splits bool.splits)

lemma ext_scanBody_loud: "ext_scanBody lib False sp fp line = scanBody lib sp fp line"
  by (simp add: ext_scanBody_def scanBody_def ext_processLine_eq Let_def)

lemma ext_scanLoop_loud: "ext_scanLoop lib False sp fp ls = scanLoop lib sp fp ls"
  by (induction ls) (simp_all add: ext_scanBody_loud)

lemma unprinted_append: "unprinted (xs @ ys) = unprinted xs @ unprinted ys"
  by (induction xs rule: unprinted.induct) simp_all

lemma scanned_append: "scanned (xs @ ys) = scanned xs @ scanned ys"
  by (induction xs rule: scanned.induct) simp_all

lemma printed_append: "printed (xs @ ys) = printed xs @ printed ys"
  by (induction xs rule: printed.induct) simp_all

lemma rangePatterns_events:
  "\<exists>ps'. fst (rangePatterns lib ps l) = map (\<lambda>q. EvMatch q l) ps'"
proof (induction ps)
  case Nil
  show ?case by simp
next
  case (Cons p ps)
  then obtain ps' where e: "fst (rangePatterns lib ps l) = map (\<lambda>q. EvMatch q l) ps'" by blast
  show ?case
  proof (cases "MatchString lib p l")
    case True
    then have "fst (rangePatterns lib (p # ps) l) = map (\<lambda>q. EvMatch q l) [p]" by simp
    then show ?thesis by blast
  next
    case False
    then have "fst (rangePatterns lib (p # ps) l) = map (\<lambda>q. EvMatch q l) (p # ps')"
      using e by (auto split: prod.splits)
    then show ?thesis by blast
  qed
qed

lemma rangePatterns_only_calls:
  "unprinted (fst (rangePatterns lib ps l)) = fst (rangePatterns lib ps l)"
  "scanned (fst (rangePatterns lib ps l)) = []"
  "printed (fst (rangePatterns lib ps l)) = []"
proof -
  obtain ps' where e: "fst (rangePatterns lib ps l) = map (\<lambda>q. EvMatch q l) ps'"
    using rangePatterns_events by blast
  show "unprinted (fst (rangePatterns lib ps l)) = fst (rangePatterns lib ps l)"
    unfolding e by (induction ps') simp_all
  show "scanned (fst (rangePatterns lib ps l)) = []"
    unfolding e by (induction ps') simp_all
  show "printed (fst (rangePatterns lib ps l)) = []"
    unfolding e by (induction ps') simp_all
qed

lemma scanLoop_status:
  "snd (scanLoop lib sp fp ls) =
     (case find (decisive lib sp fp) ls of
        Some line \<Rightarrow> Some (if anyMatch lib sp (processLine line) then 0 else 1)
      | None \<Rightarrow> None)"
proof (induction ls)
  case Nil
  show ?case by simp
next
  case (Cons line ls)
  show ?case
  proof (cases "decisive lib sp fp line")
    case True
    then show ?thesis
      using scanBody_status[of lib sp fp line]
      by (auto simp: decisive_def split: prod.splits option.splits)
  next
    case False
    then have "snd (scanBody lib sp fp line) = None"
      using scanBody_status[of lib sp fp line] by (simp add: decisive_def)
    then show ?thesis using Cons.IH False
      by (auto split: prod.splits option.splits)
  qed
qed

lemma ext_scanBody_quiet:
  "snd (ext_scanBody lib quiet sp fp line) = snd (scanBody lib sp fp line)"
  "unprinted (fst (ext_scanBody lib quiet sp fp line)) = fst (ext_scanBody lib True sp fp line)"
  "scanned (fst (ext_scanBody lib quiet sp fp line)) = [line]"
  "printed (fst (ext_scanBody lib quiet sp fp line)) = (if quiet then [] else [ext_processLine line])"
  using rangePatterns_only_calls[of lib sp "ext_processLine line"]
    rangePatterns_only_calls[of lib fp "ext_processLine line"]
  by (auto simp: ext_scanBody_def scanBody_def ext_processLine_eq[symmetric] Let_def
      unprinted_append scanned_append printed_append split: prod.splits bool.splits)

lemma ext_scanLoop_quiet:
  "snd (ext_scanLoop lib quiet sp fp ls) = snd (scanLoop lib sp fp ls)"
  "unprinted (fst (ext_scanLoop lib quiet sp fp ls)) = fst (ext_scanLoop lib True sp fp ls)"
  "printed (fst (ext_scanLoop lib quiet sp fp ls))
     = (if quiet then [] else map ext_processLine (scanned (fst (ext_scanLoop lib quiet sp fp ls))))"
  "scanned (fst (ext_scanLoop lib quiet sp fp ls)) = scanned (fst (scanLoop lib sp fp ls))"
proof (induction ls)
  case Nil
  {
    case 1 show ?case by simp
  next
    case 2 show ?case by simp
  next
    case 3 show ?case by simp
  next
    case 4 show ?case by simp
  }
next
  case (Cons line ls)
  note b = ext_scanBody_quiet[of lib quiet sp fp line] ext_scanBody_quiet[of lib True sp fp line]
    ext_scanBody_quiet[of lib False sp fp line] ext_scanBody_loud[of lib sp fp line]
  {
    case 1
    show ?case using b Cons.IH(1)
      by (auto split: prod.splits option.splits)
  next
    case 2
    show ?case using b Cons.IH(2)
      by (auto simp: unprinted_append split: prod.splits option.splits)
  next
    case 3
    show ?case using b Cons.IH(3)
      by (auto simp: printed_append scanned_append split: prod.splits option.splits)
  next
    case 4
    show ?case using b Cons.IH(4)
      by (auto simp: scanned_append split: prod.splits option.splits)
  }
qed

section \<open>The claims about the decision loop\<close>


text \<open>
  C2: for every normalized line, the success patterns are tried in their declared order
  and the first one that \<^verbatim>\<open>MatchString\<close> finds in the line ends the program with
  status 0; no later success pattern and no failure pattern is tried. Only when no success
  pattern matches are the failure patterns tried in their declared order, the first match
  ending the program with status 1. Hence a line that a success pattern matches yields
  status 0 whatever the failure patterns are, and never status 1.
\<close>

theorem decision_order:
  assumes l: "l = processLine line"
  shows
   "(\<not> anyMatch lib pre l \<and> MatchString lib p l \<longrightarrow>
       scanBody lib (pre @ p # post) failurePatterns line
         = ([EvScan line, EvPrintln l] @ map (\<lambda>q. EvMatch q l) (pre @ [p]), Some 0)
       \<and> ext_scanBody lib quiet (pre @ p # post) failurePatterns line
         = (EvScan line # (if quiet then [] else [EvPrintln l])
              @ map (\<lambda>q. EvMatch q l) (pre @ [p]), Some 0))
    \<and> (\<not> anyMatch lib successPatterns l \<and> \<not> anyMatch lib pre l \<and> MatchString lib p l \<longrightarrow>
       scanBody lib successPatterns (pre @ p # post) line
         = ([EvScan line, EvPrintln l] @ map (\<lambda>q. EvMatch q l) (successPatterns @ pre @ [p]),
            Some 1)
       \<and> ext_scanBody lib quiet successPatterns (pre @ p # post) line
         = (EvScan line # (if quiet then [] else [EvPrintln l])
              @ map (\<lambda>q. EvMatch q l) (successPatterns @ pre @ [p]), Some 1))
    \<and> (anyMatch lib successPatterns l \<longrightarrow>
       snd (scanBody lib successPatterns failurePatterns line) = Some 0
       \<and> snd (ext_scanBody lib quiet successPatterns failurePatterns line) = Some 0
       \<and> run_minimal lib successPatterns failurePatterns \<lparr>lines = line # rest, err = e\<rparr>
           = (fst (scanBody lib successPatterns failurePatterns line), 0)
       \<and> run_extended lib quiet successPatterns failurePatterns \<lparr>lines = line # rest, err = e\<rparr>
           = (fst (ext_scanBody lib quiet successPatterns failurePatterns line), 0))"
proof (intro conjI impI)
  assume a: "\<not> anyMatch lib pre l \<and> MatchString lib p l"
  then have r: "rangePatterns lib (pre @ p # post) l = (map (\<lambda>q. EvMatch q l) (pre @ [p]), True)"
    using rangePatterns_first[of lib pre l p post] by simp
  show "scanBody lib (pre @ p # post) failurePatterns line
         = ([EvScan line, EvPrintln l] @ map (\<lambda>q. EvMatch q l) (pre @ [p]), Some 0)"
    using r by (simp add: scanBody_def l[symmetric])
  show "ext_scanBody lib quiet (pre @ p # post) failurePatterns line
         = (EvScan line # (if quiet then [] else [EvPrintln l])
              @ map (\<lambda>q. EvMatch q l) (pre @ [p]), Some 0)"
    using r by (simp add: ext_scanBody_def ext_processLine_eq l[symmetric])
next
  assume a: "\<not> anyMatch lib successPatterns l \<and> \<not> anyMatch lib pre l \<and> MatchString lib p l"
  then have r: "rangePatterns lib (pre @ p # post) l = (map (\<lambda>q. EvMatch q l) (pre @ [p]), True)"
    using rangePatterns_first[of lib pre l p post] by simp
  from a have s: "rangePatterns lib successPatterns l = (map (\<lambda>q. EvMatch q l) successPatterns, False)"
    using rangePatterns_none[of lib successPatterns l] by simp
  show "scanBody lib successPatterns (pre @ p # post) line
         = ([EvScan line, EvPrintln l] @ map (\<lambda>q. EvMatch q l) (successPatterns @ pre @ [p]),
            Some 1)"
    using r s by (simp add: scanBody_def l[symmetric])
  show "ext_scanBody lib quiet successPatterns (pre @ p # post) line
         = (EvScan line # (if quiet then [] else [EvPrintln l])
              @ map (\<lambda>q. EvMatch q l) (successPatterns @ pre @ [p]), Some 1)"
    using r s by (simp add: ext_scanBody_def ext_processLine_eq l[symmetric])
next
  assume a: "anyMatch lib successPatterns l"
  show b: "snd (scanBody lib successPatterns failurePatterns line) = Some 0"
    using a by (simp add: scanBody_status l)
  show c: "snd (ext_scanBody lib quiet successPatterns failurePatterns line) = Some 0"
    using a by (simp add: ext_scanBody_status l)
  show "run_minimal lib successPatterns failurePatterns \<lparr>lines = line # rest, err = e\<rparr>
           = (fst (scanBody lib successPatterns failurePatterns line), 0)"
  proof -
    obtain evs where "scanBody lib successPatterns failurePatterns line = (evs, Some 0)"
      using b by (cases "scanBody lib successPatterns failurePatterns line") auto
    then show ?thesis by (simp add: run_minimal_def)
  qed
  show "run_extended lib quiet successPatterns failurePatterns \<lparr>lines = line # rest, err = e\<rparr>
           = (fst (ext_scanBody lib quiet successPatterns failurePatterns line), 0)"
  proof -
    obtain evs where "ext_scanBody lib quiet successPatterns failurePatterns line = (evs, Some 0)"
      using c by (cases "ext_scanBody lib quiet successPatterns failurePatterns line") auto
    then show ?thesis by (simp add: run_extended_def)
  qed
qed

theorem decision_order_witness:
  "scanBody literalLib [''OK'', ''SUCCESS'', ''DONE''] [''FAILED''] (''SUCCESS'' @ [CHR 0x0D] @ ''FAILED'')
     = ([EvScan (''SUCCESS'' @ [CHR 0x0D] @ ''FAILED''), EvPrintln ''SUCCESSFAILED'',
         EvMatch ''OK'' ''SUCCESSFAILED'', EvMatch ''SUCCESS'' ''SUCCESSFAILED''], Some 0)
   \<and> scanBody literalLib [''SUCCESS''] [''ERROR'', ''FAILED'', ''FAIL''] ''BUILD FAILED''
     = ([EvScan ''BUILD FAILED'', EvPrintln ''BUILD FAILED'', EvMatch ''SUCCESS'' ''BUILD FAILED'',
         EvMatch ''ERROR'' ''BUILD FAILED'', EvMatch ''FAILED'' ''BUILD FAILED''], Some 1)
   \<and> anyMatch literalLib [''FAILED''] ''SUCCESSFAILED''
   \<and> snd (scanBody literalLib [''OK'', ''SUCCESS'', ''DONE''] [''FAILED'']
             (''SUCCESS'' @ [CHR 0x0D] @ ''FAILED'')) = Some 0"
proof -
  let ?line = "''SUCCESS'' @ [CHR 0x0D] @ ''FAILED''"
  have l1: "''SUCCESSFAILED'' = processLine ?line" by code_simp
  have l2: "''BUILD FAILED'' = processLine ''BUILD FAILED''" by code_simp
  have h1: "\<not> anyMatch literalLib [''OK''] ''SUCCESSFAILED''
            \<and> MatchString literalLib ''SUCCESS'' ''SUCCESSFAILED''" by code_simp
  have h2: "\<not> anyMatch literalLib [''SUCCESS''] ''BUILD FAILED''
            \<and> \<not> anyMatch literalLib [''ERROR''] ''BUILD FAILED''
            \<and> MatchString literalLib ''FAILED'' ''BUILD FAILED''" by code_simp
  have h3: "anyMatch literalLib [''OK'', ''SUCCESS'', ''DONE''] ''SUCCESSFAILED''" by code_simp
  have h4: "anyMatch literalLib [''FAILED''] ''SUCCESSFAILED''" by code_simp
  from decision_order[OF l1, of literalLib "[''OK'']" "''SUCCESS''" "[''DONE'']" "[''FAILED'']"] h1
  have a: "scanBody literalLib ([''OK''] @ ''SUCCESS'' # [''DONE'']) [''FAILED''] ?line
     = ([EvScan ?line, EvPrintln ''SUCCESSFAILED'']
         @ map (\<lambda>q. EvMatch q ''SUCCESSFAILED'') ([''OK''] @ [''SUCCESS'']), Some 0)"
    by blast
  from decision_order[OF l2, of literalLib "[''ERROR'']" "''FAILED''" "[''FAIL'']" _ _ "[''SUCCESS'']"] h2
  have b: "scanBody literalLib [''SUCCESS''] ([''ERROR''] @ ''FAILED'' # [''FAIL'']) ''BUILD FAILED''
     = ([EvScan ''BUILD FAILED'', EvPrintln ''BUILD FAILED'']
         @ map (\<lambda>q. EvMatch q ''BUILD FAILED'') ([''SUCCESS''] @ [''ERROR''] @ [''FAILED'']), Some 1)"
    by blast
  from decision_order[OF l1, of literalLib _ _ _ "[''FAILED'']" _ "[''OK'', ''SUCCESS'', ''DONE'']"] h3
  have c: "snd (scanBody literalLib [''OK'', ''SUCCESS'', ''DONE''] [''FAILED''] ?line) = Some 0"
    by blast
  from a b c h4 show ?thesis by simp
qed


lemma run_minimal_status:
  "snd (run_minimal lib successPatterns failurePatterns input) =
     (case find (decisive lib successPatterns failurePatterns) (lines input) of
        Some line \<Rightarrow> if anyMatch lib successPatterns (processLine line) then 0 else 1
      | None \<Rightarrow> (case err input of Some e \<Rightarrow> 2 | None \<Rightarrow> 0))"
  using scanLoop_status[of lib successPatterns failurePatterns "lines input"]
  by (auto simp: run_minimal_def split: prod.splits option.splits)

lemma run_extended_status:
  "snd (run_extended lib quiet successPatterns failurePatterns input) =
     (case find (decisive lib successPatterns failurePatterns) (lines input) of
        Some line \<Rightarrow> if anyMatch lib successPatterns (processLine line) then 0 else 1
      | None \<Rightarrow> (case err input of Some e \<Rightarrow> 2 | None \<Rightarrow> 3))"
  using scanLoop_status[of lib successPatterns failurePatterns "lines input"]
    ext_scanLoop_quiet(1)[of lib quiet successPatterns failurePatterns "lines input"]
  by (auto simp: run_extended_def split: prod.splits option.splits)

lemma stateMachine_find:
  "stateMachine eof lib successPatterns failurePatterns ls er =
     (case find (decisive lib successPatterns failurePatterns) ls of
        Some line \<Rightarrow> if anyMatch lib successPatterns (processLine line) then 0 else 1
      | None \<Rightarrow> (case er of Some e \<Rightarrow> 2 | None \<Rightarrow> eof))"
proof (induction ls)
  case Nil
  show ?case by (cases er) simp_all
next
  case (Cons line ls)
  then show ?case by (simp add: decisive_def)
qed

lemma main_minimal_run:
  "flagParse lib flags [] [] = Inr (sp, fp) \<Longrightarrow>
   main_minimal lib flags input = run_minimal lib sp fp input"
  by (simp add: main_minimal_def)

lemma main_extended_run:
  assumes "flagParse lib (patternFlags cmd) [] [] = Inr (sp, fp)" "\<not> helpFlag cmd"
  shows "args cmd = [] \<Longrightarrow>
           main_extended lib cmd en = run_extended lib (quietFlag cmd) sp fp (stdin en)"
    "args cmd = [a] \<Longrightarrow> Open en a = Inr file \<Longrightarrow>
           main_extended lib cmd en = run_extended lib (quietFlag cmd) sp fp file"
  using assms by (simp_all add: main_extended_def)

text \<open>
  C3: the exit status of every run that reaches the scanner loop follows the state
  machine of the specification. With the first decisive line of the input (the first line
  that, once normalized, a success or a failure pattern matches): the status is 0 when a
  success pattern matches that line and 1 otherwise (a failure pattern matches it and no
  success pattern has matched it or an earlier line). With no decisive line: the status is
  2 when reading stopped on an error, and when the input ended it is 3 in the extended
  variant and 0 in the minimal variant. This is the status of \<^verbatim>\<open>main\<close> whenever the
  patterns of the command line compile and, in the extended variant, no help is asked for
  and the input is standard input or a file that opens.
\<close>

theorem exit_status_state_machine:
  "snd (run_minimal lib successPatterns failurePatterns input)
     = stateMachine 0 lib successPatterns failurePatterns (lines input) (err input)
   \<and> snd (run_extended lib quiet successPatterns failurePatterns input)
     = stateMachine 3 lib successPatterns failurePatterns (lines input) (err input)
   \<and> stateMachine eof lib successPatterns failurePatterns ls er =
     (case find (decisive lib successPatterns failurePatterns) ls of
        Some line \<Rightarrow> if anyMatch lib successPatterns (processLine line) then 0 else 1
      | None \<Rightarrow> (case er of Some e \<Rightarrow> 2 | None \<Rightarrow> eof))
   \<and> (flagParse lib flags [] [] = Inr (successPatterns, failurePatterns) \<longrightarrow>
        snd (main_minimal lib flags input)
          = stateMachine 0 lib successPatterns failurePatterns (lines input) (err input))
   \<and> (flagParse lib (patternFlags cmd) [] [] = Inr (successPatterns, failurePatterns)
        \<and> \<not> helpFlag cmd \<and> args cmd = [] \<longrightarrow>
        snd (main_extended lib cmd en)
          = stateMachine 3 lib successPatterns failurePatterns (lines (stdin en)) (err (stdin en)))
   \<and> (flagParse lib (patternFlags cmd) [] [] = Inr (successPatterns, failurePatterns)
        \<and> \<not> helpFlag cmd \<and> args cmd = [a] \<and> Open en a = Inr file \<longrightarrow>
        snd (main_extended lib cmd en)
          = stateMachine 3 lib successPatterns failurePatterns (lines file) (err file))"
proof -
  have m: "snd (run_minimal lib successPatterns failurePatterns i)
     = stateMachine 0 lib successPatterns failurePatterns (lines i) (err i)" for i
    by (simp only: run_minimal_status stateMachine_find)
  have x: "snd (run_extended lib q successPatterns failurePatterns i)
     = stateMachine 3 lib successPatterns failurePatterns (lines i) (err i)" for i q
    by (simp only: run_extended_status stateMachine_find)
  show ?thesis
  proof (intro conjI impI)
    show "snd (run_minimal lib successPatterns failurePatterns input)
       = stateMachine 0 lib successPatterns failurePatterns (lines input) (err input)"
      by (rule m)
    show "snd (run_extended lib quiet successPatterns failurePatterns input)
       = stateMachine 3 lib successPatterns failurePatterns (lines input) (err input)"
      by (rule x)
    show "stateMachine eof lib successPatterns failurePatterns ls er =
       (case find (decisive lib successPatterns failurePatterns) ls of
          Some line \<Rightarrow> if anyMatch lib successPatterns (processLine line) then 0 else 1
        | None \<Rightarrow> (case er of Some e \<Rightarrow> 2 | None \<Rightarrow> eof))"
      by (rule stateMachine_find)
  next
    assume "flagParse lib flags [] [] = Inr (successPatterns, failurePatterns)"
    from main_minimal_run[OF this]
    show "snd (main_minimal lib flags input)
          = stateMachine 0 lib successPatterns failurePatterns (lines input) (err input)"
      by (simp only: m)
  next
    assume "flagParse lib (patternFlags cmd) [] [] = Inr (successPatterns, failurePatterns)
        \<and> \<not> helpFlag cmd \<and> args cmd = []"
    then have "main_extended lib cmd en
        = run_extended lib (quietFlag cmd) successPatterns failurePatterns (stdin en)"
      using main_extended_run(1) by blast
    then show "snd (main_extended lib cmd en)
          = stateMachine 3 lib successPatterns failurePatterns (lines (stdin en)) (err (stdin en))"
      by (simp only: x)
  next
    assume "flagParse lib (patternFlags cmd) [] [] = Inr (successPatterns, failurePatterns)
        \<and> \<not> helpFlag cmd \<and> args cmd = [a] \<and> Open en a = Inr file"
    then have "main_extended lib cmd en
        = run_extended lib (quietFlag cmd) successPatterns failurePatterns file"
      using main_extended_run(2) by blast
    then show "snd (main_extended lib cmd en)
          = stateMachine 3 lib successPatterns failurePatterns (lines file) (err file)"
      by (simp only: x)
  qed
qed

theorem exit_status_state_machine_witness:
  "snd (run_minimal literalLib [''SUCCESS''] [''FAILED'']
          \<lparr>lines = [''BUILD IN PROGRESS'', ''BUILD SUCCESS'', ''BUILD FAILED''], err = None\<rparr>) = 0
   \<and> snd (run_minimal literalLib [''SUCCESS''] [''FAILED'']
          \<lparr>lines = [''BUILD IN PROGRESS'', ''BUILD FAILED'', ''BUILD SUCCESS''], err = None\<rparr>) = 1
   \<and> snd (run_minimal literalLib [''SUCCESS''] [''FAILED'']
          \<lparr>lines = [''BUILD IN PROGRESS''], err = Some ''read |0: file already closed''\<rparr>) = 2
   \<and> snd (run_minimal literalLib [''SUCCESS''] [''FAILED'']
          \<lparr>lines = [''BUILD IN PROGRESS''], err = None\<rparr>) = 0
   \<and> snd (run_extended literalLib False [''SUCCESS''] [''FAILED'']
          \<lparr>lines = [''BUILD IN PROGRESS''], err = None\<rparr>) = 3
   \<and> snd (main_minimal literalLib [(Success, ''SUCCESS''), (Failure, ''FAILED'')]
          \<lparr>lines = [''BUILD IN PROGRESS'', ''BUILD FAILED'', ''BUILD SUCCESS''], err = None\<rparr>) = 1"
proof -
  let ?i1 = "\<lparr>lines = [''BUILD IN PROGRESS'', ''BUILD SUCCESS'', ''BUILD FAILED''], err = None\<rparr>"
  let ?i2 = "\<lparr>lines = [''BUILD IN PROGRESS'', ''BUILD FAILED'', ''BUILD SUCCESS''], err = None\<rparr>"
  let ?i3 = "\<lparr>lines = [''BUILD IN PROGRESS''], err = Some ''read |0: file already closed''\<rparr>"
  let ?i4 = "\<lparr>lines = [''BUILD IN PROGRESS''], err = None\<rparr>"
  have f:
    "stateMachine 0 literalLib [''SUCCESS''] [''FAILED''] (lines ?i1) (err ?i1) = 0"
    "stateMachine 0 literalLib [''SUCCESS''] [''FAILED''] (lines ?i2) (err ?i2) = 1"
    "stateMachine 0 literalLib [''SUCCESS''] [''FAILED''] (lines ?i3) (err ?i3) = 2"
    "stateMachine 0 literalLib [''SUCCESS''] [''FAILED''] (lines ?i4) (err ?i4) = 0"
    "stateMachine 3 literalLib [''SUCCESS''] [''FAILED''] (lines ?i4) (err ?i4) = 3"
    by code_simp+
  have p: "flagParse literalLib [(Success, ''SUCCESS''), (Failure, ''FAILED'')] [] []
             = Inr ([''SUCCESS''], [''FAILED''])"
    by code_simp
  note t = exit_status_state_machine[where lib = literalLib and successPatterns = "[''SUCCESS'']"
      and failurePatterns = "[''FAILED'']"]
  show ?thesis
  proof (intro conjI)
    show "snd (run_minimal literalLib [''SUCCESS''] [''FAILED''] ?i1) = 0"
      using t[where input = ?i1, THEN conjunct1] by (simp only: f)
    show "snd (run_minimal literalLib [''SUCCESS''] [''FAILED''] ?i2) = 1"
      using t[where input = ?i2, THEN conjunct1] by (simp only: f)
    show "snd (run_minimal literalLib [''SUCCESS''] [''FAILED''] ?i3) = 2"
      using t[where input = ?i3, THEN conjunct1] by (simp only: f)
    show "snd (run_minimal literalLib [''SUCCESS''] [''FAILED''] ?i4) = 0"
      using t[where input = ?i4, THEN conjunct1] by (simp only: f)
    show "snd (run_extended literalLib False [''SUCCESS''] [''FAILED''] ?i4) = 3"
      using t[where input = ?i4 and quiet = False, THEN conjunct2, THEN conjunct1]
      by (simp only: f)
    show "snd (main_minimal literalLib [(Success, ''SUCCESS''), (Failure, ''FAILED'')] ?i2) = 1"
      using t[where input = ?i2 and flags = "[(Success, ''SUCCESS''), (Failure, ''FAILED'')]",
          THEN conjunct2, THEN conjunct2, THEN conjunct2, THEN conjunct1, THEN mp, OF p]
      by (simp only: f)
  qed
qed

section \<open>The two variants, and the quiet flag\<close>


lemma scanLoop_undecided:
  "snd (scanLoop lib sp fp ls) = None \<longleftrightarrow> \<not> list_ex (decisive lib sp fp) ls"
proof -
  have "snd (scanLoop lib sp fp ls) = None \<longleftrightarrow> find (decisive lib sp fp) ls = None"
    by (simp add: scanLoop_status split: option.splits)
  also have "\<dots> \<longleftrightarrow> \<not> list_ex (decisive lib sp fp) ls"
    by (auto simp add: find_None_iff list_ex_iff)
  finally show ?thesis .
qed

lemma run_extended_loud_decided:
  assumes "list_ex (decisive lib sp fp) (lines input) \<or> err input \<noteq> None"
  shows "run_extended lib False sp fp input = run_minimal lib sp fp input"
proof (cases "scanLoop lib sp fp (lines input)")
  case (Pair evs exit)
  show ?thesis
  proof (cases exit)
    case None
    with Pair have "\<not> list_ex (decisive lib sp fp) (lines input)"
      using scanLoop_undecided[of lib sp fp "lines input"] by simp
    with assms obtain e where "err input = Some e" by auto
    with Pair None show ?thesis
      by (simp add: run_extended_def run_minimal_def ext_scanLoop_loud)
  next
    case (Some st)
    with Pair show ?thesis
      by (simp add: run_extended_def run_minimal_def ext_scanLoop_loud)
  qed
qed

lemma run_extended_loud_undecided:
  assumes "\<not> list_ex (decisive lib sp fp) (lines input)" "err input = None"
  shows "run_minimal lib sp fp input = (fst (scanLoop lib sp fp (lines input)), 0)"
    "run_extended lib False sp fp input
       = (fst (run_minimal lib sp fp input)
            @ [EvStderr ''EOF found but no matching lines were detected''], 3)"
proof -
  obtain evs where s: "scanLoop lib sp fp (lines input) = (evs, None)"
    using scanLoop_undecided[of lib sp fp "lines input"] assms(1)
    by (cases "scanLoop lib sp fp (lines input)") auto
  show "run_minimal lib sp fp input = (fst (scanLoop lib sp fp (lines input)), 0)"
    using s assms(2) by (simp add: run_minimal_def)
  then show "run_extended lib False sp fp input
       = (fst (run_minimal lib sp fp input)
            @ [EvStderr ''EOF found but no matching lines were detected''], 3)"
    using s assms(2) by (simp add: run_extended_def ext_scanLoop_loud)
qed

lemma run_scanned:
  "scanned (fst (run_extended lib quiet sp fp input)) = scanned (fst (run_minimal lib sp fp input))"
  using ext_scanLoop_quiet(1,4)[of lib quiet sp fp "lines input"]
  by (cases "scanLoop lib sp fp (lines input)";
      cases "ext_scanLoop lib quiet sp fp (lines input)")
     (auto simp: run_extended_def run_minimal_def scanned_append split: option.splits)

text \<open>
  C8: the two variants normalize a line in the same way and decide on it in the same way.
  For every input and all pattern lists: when some line is decisive, both variants stop on
  the same line with the same exit status (and the extended variant that is not quiet
  behaves exactly as the minimal one); the same holds when reading stops on an error. The
  variants differ only when the input ends with no match: the minimal variant returns
  with status 0, the extended variant writes one message and exits with status 3.
\<close>

theorem variants_agree:
  "ext_processLine line = processLine line
   \<and> ext_scanBody lib False successPatterns failurePatterns line
       = scanBody lib successPatterns failurePatterns line
   \<and> snd (ext_scanBody lib quiet successPatterns failurePatterns line)
       = snd (scanBody lib successPatterns failurePatterns line)
   \<and> scanned (fst (run_extended lib quiet successPatterns failurePatterns input))
       = scanned (fst (run_minimal lib successPatterns failurePatterns input))
   \<and> (list_ex (decisive lib successPatterns failurePatterns) (lines input) \<or> err input \<noteq> None \<longrightarrow>
        snd (run_extended lib quiet successPatterns failurePatterns input)
          = snd (run_minimal lib successPatterns failurePatterns input)
        \<and> run_extended lib False successPatterns failurePatterns input
          = run_minimal lib successPatterns failurePatterns input)
   \<and> (\<not> list_ex (decisive lib successPatterns failurePatterns) (lines input) \<and> err input = None \<longrightarrow>
        snd (run_minimal lib successPatterns failurePatterns input) = 0
        \<and> snd (run_extended lib quiet successPatterns failurePatterns input) = 3
        \<and> run_extended lib False successPatterns failurePatterns input
          = (fst (run_minimal lib successPatterns failurePatterns input)
               @ [EvStderr ''EOF found but no matching lines were detected''], 3))"
proof (intro conjI impI)
  show "ext_processLine line = processLine line" by (rule ext_processLine_eq)
  show "ext_scanBody lib False successPatterns failurePatterns line
       = scanBody lib successPatterns failurePatterns line" by (rule ext_scanBody_loud)
  show "snd (ext_scanBody lib quiet successPatterns failurePatterns line)
       = snd (scanBody lib successPatterns failurePatterns line)" by (rule ext_scanBody_quiet(1))
  show "scanned (fst (run_extended lib quiet successPatterns failurePatterns input))
       = scanned (fst (run_minimal lib successPatterns failurePatterns input))"
    by (rule run_scanned)
next
  assume a: "list_ex (decisive lib successPatterns failurePatterns) (lines input) \<or> err input \<noteq> None"
  show "run_extended lib False successPatterns failurePatterns input
          = run_minimal lib successPatterns failurePatterns input"
    using a by (rule run_extended_loud_decided)
  have "find (decisive lib successPatterns failurePatterns) (lines input) \<noteq> None \<or> err input \<noteq> None"
    using a by (auto simp: list_ex_iff find_None_iff)
  then show "snd (run_extended lib quiet successPatterns failurePatterns input)
          = snd (run_minimal lib successPatterns failurePatterns input)"
    using run_minimal_status[of lib successPatterns failurePatterns input]
      run_extended_status[of lib quiet successPatterns failurePatterns input]
    by (auto split: option.splits)
next
  assume a: "\<not> list_ex (decisive lib successPatterns failurePatterns) (lines input) \<and> err input = None"
  then have f: "find (decisive lib successPatterns failurePatterns) (lines input) = None"
    by (auto simp: list_ex_iff find_None_iff)
  show "snd (run_minimal lib successPatterns failurePatterns input) = 0"
    using run_minimal_status[of lib successPatterns failurePatterns input] a f by simp
  show "snd (run_extended lib quiet successPatterns failurePatterns input) = 3"
    using run_extended_status[of lib quiet successPatterns failurePatterns input] a f by simp
  show "run_extended lib False successPatterns failurePatterns input
          = (fst (run_minimal lib successPatterns failurePatterns input)
               @ [EvStderr ''EOF found but no matching lines were detected''], 3)"
    using a run_extended_loud_undecided(2)[of lib successPatterns failurePatterns input] by simp
qed

theorem variants_agree_witness:
  "run_extended literalLib False [''SUCCESS''] [''FAILED'']
      \<lparr>lines = [''BUILD IN PROGRESS'', ''BUILD FAILED'', ''BUILD SUCCESS''], err = None\<rparr>
     = run_minimal literalLib [''SUCCESS''] [''FAILED'']
         \<lparr>lines = [''BUILD IN PROGRESS'', ''BUILD FAILED'', ''BUILD SUCCESS''], err = None\<rparr>
   \<and> snd (run_extended literalLib True [''SUCCESS''] [''FAILED'']
         \<lparr>lines = [''BUILD IN PROGRESS'', ''BUILD FAILED'', ''BUILD SUCCESS''], err = None\<rparr>) = 1
   \<and> scanned (fst (run_extended literalLib True [''SUCCESS''] [''FAILED'']
         \<lparr>lines = [''BUILD IN PROGRESS'', ''BUILD FAILED'', ''BUILD SUCCESS''], err = None\<rparr>))
       = [''BUILD IN PROGRESS'', ''BUILD FAILED'']
   \<and> snd (run_minimal literalLib [''SUCCESS''] [''FAILED'']
         \<lparr>lines = [''BUILD IN PROGRESS''], err = None\<rparr>) = 0
   \<and> snd (run_extended literalLib True [''SUCCESS''] [''FAILED'']
         \<lparr>lines = [''BUILD IN PROGRESS''], err = None\<rparr>) = 3"
proof -
  let ?i = "\<lparr>lines = [''BUILD IN PROGRESS'', ''BUILD FAILED'', ''BUILD SUCCESS''], err = None\<rparr>"
  let ?j = "\<lparr>lines = [''BUILD IN PROGRESS''], err = None\<rparr>"
  have d: "list_ex (decisive literalLib [''SUCCESS''] [''FAILED'']) (lines ?i) \<or> err ?i \<noteq> None"
    by code_simp
  have n: "\<not> list_ex (decisive literalLib [''SUCCESS''] [''FAILED'']) (lines ?j) \<and> err ?j = None"
    by code_simp
  have m: "snd (run_minimal literalLib [''SUCCESS''] [''FAILED''] ?i) = 1"
    "scanned (fst (run_minimal literalLib [''SUCCESS''] [''FAILED''] ?i))
       = [''BUILD IN PROGRESS'', ''BUILD FAILED'']"
    by code_simp+
  from variants_agree[of _ literalLib "[''SUCCESS'']" "[''FAILED'']" True ?i] d
  have a: "run_extended literalLib False [''SUCCESS''] [''FAILED''] ?i
             = run_minimal literalLib [''SUCCESS''] [''FAILED''] ?i"
    "snd (run_extended literalLib True [''SUCCESS''] [''FAILED''] ?i)
             = snd (run_minimal literalLib [''SUCCESS''] [''FAILED''] ?i)"
    "scanned (fst (run_extended literalLib True [''SUCCESS''] [''FAILED''] ?i))
             = scanned (fst (run_minimal literalLib [''SUCCESS''] [''FAILED''] ?i))"
    by blast+
  from variants_agree[of _ literalLib "[''SUCCESS'']" "[''FAILED'']" True ?j] n
  have b: "snd (run_minimal literalLib [''SUCCESS''] [''FAILED''] ?j) = 0"
    "snd (run_extended literalLib True [''SUCCESS''] [''FAILED''] ?j) = 3"
    by blast+
  show ?thesis using a b unfolding m by blast
qed

lemma unprinted_stderr: "unprinted (map EvStderr xs) = map EvStderr xs"
  by (induction xs) simp_all

lemma printed_stderr: "printed (map EvStderr xs) = []"
  by (induction xs) simp_all

lemma scanned_stderr: "scanned (map EvStderr xs) = []"
  by (induction xs) simp_all

lemma printed_unprinted: "printed (unprinted evs) = []"
  by (induction evs rule: unprinted.induct) simp_all

lemma run_extended_quiet:
  "run_extended lib True sp fp input
     = (unprinted (fst (run_extended lib quiet sp fp input)), snd (run_extended lib quiet sp fp input))"
  "printed (fst (run_extended lib quiet sp fp input))
     = (if quiet then [] else map ext_processLine (scanned (fst (run_extended lib quiet sp fp input))))"
proof -
  note q = ext_scanLoop_quiet[of lib quiet sp fp "lines input"]
    ext_scanLoop_quiet(1)[of lib True sp fp "lines input"]
  show "run_extended lib True sp fp input
     = (unprinted (fst (run_extended lib quiet sp fp input)), snd (run_extended lib quiet sp fp input))"
    using q
    by (cases "ext_scanLoop lib quiet sp fp (lines input)";
        cases "ext_scanLoop lib True sp fp (lines input)")
       (auto simp: run_extended_def unprinted_append split: option.splits)
  show "printed (fst (run_extended lib quiet sp fp input))
     = (if quiet then [] else map ext_processLine (scanned (fst (run_extended lib quiet sp fp input))))"
    using q
    by (cases "ext_scanLoop lib quiet sp fp (lines input)")
       (auto simp: run_extended_def printed_append scanned_append split: option.splits)
qed

text \<open>
  C9: in the extended variant the quiet flag does not influence the decision. For every
  command line and environment, the run with \<^verbatim>\<open>-quiet\<close> is the run without it with
  the \<^verbatim>\<open>Println\<close> lines left out: the same lines are read, the same patterns are tried
  on them, the same texts go to standard error and the exit status is the same. Without
  \<^verbatim>\<open>-quiet\<close> every line read is printed normalized, before any pattern is tried on
  it; with \<^verbatim>\<open>-quiet\<close> nothing is printed.
\<close>

theorem quiet_only_echo:
  "main_extended lib (cmd\<lparr>quietFlag := True\<rparr>) e
     = (unprinted (fst (main_extended lib (cmd\<lparr>quietFlag := False\<rparr>) e)),
        snd (main_extended lib (cmd\<lparr>quietFlag := False\<rparr>) e))
   \<and> scanned (fst (main_extended lib (cmd\<lparr>quietFlag := True\<rparr>) e))
       = scanned (fst (main_extended lib (cmd\<lparr>quietFlag := False\<rparr>) e))
   \<and> printed (fst (main_extended lib (cmd\<lparr>quietFlag := True\<rparr>) e)) = []
   \<and> printed (fst (main_extended lib (cmd\<lparr>quietFlag := False\<rparr>) e))
       = map ext_processLine (scanned (fst (main_extended lib (cmd\<lparr>quietFlag := False\<rparr>) e)))
   \<and> fst (ext_scanBody lib False successPatterns failurePatterns line)
       = EvScan line # EvPrintln (ext_processLine line)
           # drop 1 (fst (ext_scanBody lib True successPatterns failurePatterns line))
   \<and> take 1 (fst (ext_scanBody lib True successPatterns failurePatterns line)) = [EvScan line]"
proof -
  have main_eq: "main_extended lib (cmd\<lparr>quietFlag := True\<rparr>) e
     = (unprinted (fst (main_extended lib (cmd\<lparr>quietFlag := False\<rparr>) e)),
        snd (main_extended lib (cmd\<lparr>quietFlag := False\<rparr>) e))"
    using run_extended_quiet(1)[of lib _ _ _ False]
    by (auto simp: main_extended_def unprinted_stderr split: sum.splits list.splits prod.splits)
  have pr: "printed (fst (main_extended lib (cmd\<lparr>quietFlag := False\<rparr>) e))
       = map ext_processLine (scanned (fst (main_extended lib (cmd\<lparr>quietFlag := False\<rparr>) e)))"
    using run_extended_quiet(2)[of lib False]
    by (auto simp: main_extended_def printed_stderr scanned_stderr
        split: sum.splits list.splits prod.splits)
  have sc: "scanned (unprinted evs) = scanned evs" for evs :: "'a event list"
    by (induction evs rule: unprinted.induct) simp_all
  have body: "fst (ext_scanBody lib False successPatterns failurePatterns line)
       = EvScan line # EvPrintln (ext_processLine line)
           # drop 1 (fst (ext_scanBody lib True successPatterns failurePatterns line))"
    "take 1 (fst (ext_scanBody lib True successPatterns failurePatterns line)) = [EvScan line]"
    by (auto simp: ext_scanBody_def Let_def split: prod.splits bool.splits)
  show ?thesis
    using pr body by (simp add: main_eq sc printed_unprinted)
qed

theorem quiet_only_echo_witness:
  "main_extended literalLib
      \<lparr>patternFlags = [(Success, ''SUCCESS''), (Failure, ''FAILED'')], quietFlag = True,
         helpFlag = False, args = []\<rparr>
      \<lparr>stdin = \<lparr>lines = [''BUILD IN PROGRESS'', ''BUILD FAILED'', ''BUILD SUCCESS''], err = None\<rparr>,
         Open = (\<lambda>a. Inl ''no such file or directory'')\<rparr>
     = ([EvScan ''BUILD IN PROGRESS'', EvMatch ''SUCCESS'' ''BUILD IN PROGRESS'',
         EvMatch ''FAILED'' ''BUILD IN PROGRESS'', EvScan ''BUILD FAILED'',
         EvMatch ''SUCCESS'' ''BUILD FAILED'', EvMatch ''FAILED'' ''BUILD FAILED''], 1)
   \<and> printed (fst (main_extended literalLib
      \<lparr>patternFlags = [(Success, ''SUCCESS''), (Failure, ''FAILED'')], quietFlag = False,
         helpFlag = False, args = []\<rparr>
      \<lparr>stdin = \<lparr>lines = [''BUILD IN PROGRESS'', ''BUILD FAILED'', ''BUILD SUCCESS''], err = None\<rparr>,
         Open = (\<lambda>a. Inl ''no such file or directory'')\<rparr>))
     = [''BUILD IN PROGRESS'', ''BUILD FAILED'']"
proof -
  let ?cmd = "\<lparr>patternFlags = [(Success, ''SUCCESS''), (Failure, ''FAILED'')], quietFlag = False,
         helpFlag = False, args = []\<rparr>"
  let ?e = "\<lparr>stdin = \<lparr>lines = [''BUILD IN PROGRESS'', ''BUILD FAILED'', ''BUILD SUCCESS''], err = None\<rparr>,
         Open = (\<lambda>a. Inl ''no such file or directory'')\<rparr> :: env"
  have loud: "main_extended literalLib ?cmd ?e
     = ([EvScan ''BUILD IN PROGRESS'', EvPrintln ''BUILD IN PROGRESS'',
         EvMatch ''SUCCESS'' ''BUILD IN PROGRESS'', EvMatch ''FAILED'' ''BUILD IN PROGRESS'',
         EvScan ''BUILD FAILED'', EvPrintln ''BUILD FAILED'',
         EvMatch ''SUCCESS'' ''BUILD FAILED'', EvMatch ''FAILED'' ''BUILD FAILED''], 1)"
    by code_simp
  from quiet_only_echo[of literalLib ?cmd ?e]
  have "main_extended literalLib (?cmd\<lparr>quietFlag := True\<rparr>) ?e
     = (unprinted (fst (main_extended literalLib (?cmd\<lparr>quietFlag := False\<rparr>) ?e)),
        snd (main_extended literalLib (?cmd\<lparr>quietFlag := False\<rparr>) ?e))"
    by blast
  then show ?thesis by (simp add: loud)
qed

section \<open>The claims about the patterns of the command line\<close>


lemma contains_prefix: "contains (pat @ rest) pat"
proof (cases "pat @ rest")
  case Nil
  then show ?thesis by simp
next
  case (Cons a list)
  have "take (length pat) (pat @ rest) = pat" by simp
  then have "take (length pat) (a # list) = pat" by (simp only: Cons)
  then have "contains (a # list) pat" by (simp only: contains.simps simp_thms)
  then show ?thesis by (simp only: Cons)
qed

lemma contains_append: "contains (a @ pat @ b) pat"
proof (induction a)
  case Nil
  show ?case using contains_prefix[of pat b] by simp
next
  case (Cons c a)
  then show ?case by simp
qed

lemma RegexSlice_Set_error:
  "Compile lib v = Inl e \<Longrightarrow>
   RegexSlice_Set lib r v
     = (r, Some (''invalid regex pattern '' @ [CHR 0x27] @ v @ [CHR 0x27] @ '': '' @ e))"
  by (simp add: RegexSlice_Set_def)

lemma RegexSlice_Set_ok:
  "Compile lib v = Inr c \<Longrightarrow> RegexSlice_Set lib r v = (r @ [c], None)"
  by (simp add: RegexSlice_Set_def)

lemma flagParse_first_error:
  assumes "list_all (\<lambda>kv. \<not> isl (Compile lib (snd kv))) pre" "Compile lib v = Inl e"
  shows "flagParse lib (pre @ (k, v) # post) sp fp
           = Inl (failf lib k v (''invalid regex pattern '' @ [CHR 0x27] @ v @ [CHR 0x27] @ '': '' @ e))"
  using assms(1)
proof (induction pre arbitrary: sp fp)
  case Nil
  show ?case using assms(2) by (cases k) (simp_all add: RegexSlice_Set_error)
next
  case (Cons kv pre)
  obtain k' v' where kv: "kv = (k', v')" by (cases kv)
  from Cons.prems obtain c where c: "Compile lib v' = Inr c"
    by (cases "Compile lib v'") (auto simp: kv)
  from Cons.prems have r: "list_all (\<lambda>kv. \<not> isl (Compile lib (snd kv))) pre" by simp
  show ?case using Cons.IH[OF r] c by (cases k') (simp_all add: kv RegexSlice_Set_ok)
qed

lemma flagParse_error_split:
  assumes "(k, v) \<in> set flags" "Compile lib v = Inl e"
  shows "\<exists>pre k' v' e' post. flags = pre @ (k', v') # post
           \<and> list_all (\<lambda>kv. \<not> isl (Compile lib (snd kv))) pre \<and> Compile lib v' = Inl e'"
  using assms(1)
proof (induction flags)
  case Nil
  then show ?case by simp
next
  case (Cons kv flags)
  obtain k1 v1 where kv: "kv = (k1, v1)" by (cases kv)
  show ?case
  proof (cases "Compile lib v1")
    case (Inl e1)
    then have "kv # flags = [] @ (k1, v1) # flags
        \<and> list_all (\<lambda>kv. \<not> isl (Compile lib (snd kv))) [] \<and> Compile lib v1 = Inl e1"
      by (simp add: kv)
    then show ?thesis by blast
  next
    case (Inr c)
    with Cons.prems assms(2) have "(k, v) \<in> set flags" by (auto simp: kv)
    from Cons.IH[OF this] obtain pre k' v' e' post where
      "flags = pre @ (k', v') # post" "list_all (\<lambda>kv. \<not> isl (Compile lib (snd kv))) pre"
      "Compile lib v' = Inl e'" by blast
    with Inr have "kv # flags = (kv # pre) @ (k', v') # post
        \<and> list_all (\<lambda>kv. \<not> isl (Compile lib (snd kv))) (kv # pre) \<and> Compile lib v' = Inl e'"
      by (simp add: kv)
    then show ?thesis by blast
  qed
qed

lemma flagParse_invalid:
  assumes "(k, v) \<in> set flags" "Compile lib v = Inl e"
  shows "\<exists>msg. flagParse lib flags sp fp = Inl msg"
proof -
  from flagParse_error_split[OF assms] obtain pre k' v' e' post where
    "flags = pre @ (k', v') # post" "list_all (\<lambda>kv. \<not> isl (Compile lib (snd kv))) pre"
    "Compile lib v' = Inl e'" by blast
  then show ?thesis using flagParse_first_error[of lib pre v' e' k' post sp fp] by simp
qed

lemma main_flag_error:
  assumes "flagParse lib flags [] [] = Inl msg"
  shows "main_minimal lib flags input = ([EvStderr msg, EvStderr (defaultUsage lib)], 2)"
    "patternFlags cmd = flags \<Longrightarrow>
       main_extended lib cmd en = (EvStderr msg # map EvStderr printHelp, 99)"
  using assms by (simp_all add: main_minimal_def main_extended_def)

text \<open>
  C5: for every pattern string that \<^verbatim>\<open>regexp.Compile\<close> rejects, \<^verbatim>\<open>Set\<close> fails with
  an error whose text holds the pattern and the text of the syntax error, and leaves the
  pattern list as it was. A command line that supplies such a pattern ends the program
  before any line is read or printed: with status 2 in the minimal variant and with status
  99 (through \<^verbatim>\<open>printHelp\<close>) in the extended one. When it is the first such pattern of
  the command line, standard error receives the message of the \<^verbatim>\<open>flag\<close> package, which
  holds the error of \<^verbatim>\<open>Set\<close>, and then the usage.
\<close>

theorem invalid_pattern_prevents_startup:
  assumes "Compile lib pat = Inl e"
    and "(k, pat) \<in> set flags"
    and "patternFlags cmd = flags"
    and "msg = ''invalid regex pattern '' @ [CHR 0x27] @ pat @ [CHR 0x27] @ '': '' @ e"
  shows
   "RegexSlice_Set lib r pat = (r, Some msg)
    \<and> contains msg pat \<and> contains msg e
    \<and> snd (main_minimal lib flags input) = 2
    \<and> scanned (fst (main_minimal lib flags input)) = []
    \<and> printed (fst (main_minimal lib flags input)) = []
    \<and> snd (main_extended lib cmd en) = 99
    \<and> scanned (fst (main_extended lib cmd en)) = []
    \<and> printed (fst (main_extended lib cmd en)) = []
    \<and> (list_all (\<lambda>kv. \<not> isl (Compile lib (snd kv))) pre \<and> flags = pre @ (k, pat) # post \<longrightarrow>
         main_minimal lib flags input
           = ([EvStderr (failf lib k pat msg), EvStderr (defaultUsage lib)], 2)
         \<and> main_extended lib cmd en
           = (EvStderr (failf lib k pat msg) # map EvStderr printHelp, 99)
         \<and> contains (failf lib k pat msg) msg)"
proof -
  have s: "RegexSlice_Set lib r pat = (r, Some msg)"
    using assms(1) by (simp add: RegexSlice_Set_error assms(4))
  have c1: "contains msg pat"
    using contains_append[of "''invalid regex pattern '' @ [CHR 0x27]" pat "[CHR 0x27] @ '': '' @ e"]
    by (simp add: assms(4))
  have c2: "contains msg e"
    using contains_append[of "''invalid regex pattern '' @ [CHR 0x27] @ pat @ [CHR 0x27] @ '': ''" e "[]"]
    by (simp add: assms(4))
  obtain m where m: "flagParse lib flags [] [] = Inl m"
    using flagParse_invalid[OF assms(2,1)] by blast
  note r = main_flag_error(1)[OF m] main_flag_error(2)[OF m assms(3)]
  have c3: "contains (failf lib k pat msg) msg"
    using contains_append[of "''invalid value '' @ Quote lib pat @ '' for flag -'' @ flagName k @ '': ''"
        msg "''\<newline>''"]
    by (simp add: failf_def)
  have first: "main_minimal lib flags input
           = ([EvStderr (failf lib k pat msg), EvStderr (defaultUsage lib)], 2)
         \<and> main_extended lib cmd en
           = (EvStderr (failf lib k pat msg) # map EvStderr printHelp, 99)"
    if "list_all (\<lambda>kv. \<not> isl (Compile lib (snd kv))) pre \<and> flags = pre @ (k, pat) # post"
  proof -
    from that flagParse_first_error[of lib pre pat e k post "[]" "[]"] assms(1)
    have "flagParse lib flags [] [] = Inl (failf lib k pat msg)" by (simp add: assms(4))
    from main_flag_error(1)[OF this] main_flag_error(2)[OF this assms(3)]
    show ?thesis by simp
  qed
  show ?thesis
    using s c1 c2 c3 first by (simp add: r scanned_stderr printed_stderr)
qed

theorem invalid_pattern_prevents_startup_witness:
  "RegexSlice_Set literalLib [''SUCCESS''] ''[abc''
     = ([''SUCCESS''],
        Some (''invalid regex pattern '' @ [CHR 0x27] @ ''[abc'' @ [CHR 0x27] @ '': ''
                @ ''error parsing regexp: missing closing ]: `[abc`''))
   \<and> main_minimal literalLib [(Success, ''SUCCESS''), (Failure, ''[abc'')]
        \<lparr>lines = [''BUILD SUCCESS''], err = None\<rparr>
     = ([EvStderr (''invalid value '' @ [CHR 0x22] @ ''[abc'' @ [CHR 0x22]
                    @ '' for flag -failure: invalid regex pattern '' @ [CHR 0x27] @ ''[abc''
                    @ [CHR 0x27] @ '': error parsing regexp: missing closing ]: `[abc`\<newline>''),
         EvStderr ''Usage of handytail:\<newline>''], 2)
   \<and> snd (main_extended literalLib
        \<lparr>patternFlags = [(Success, ''SUCCESS''), (Failure, ''[abc'')], quietFlag = False,
           helpFlag = False, args = []\<rparr>
        \<lparr>stdin = \<lparr>lines = [''BUILD SUCCESS''], err = None\<rparr>,
           Open = (\<lambda>a. Inl ''no such file or directory'')\<rparr>) = 99
   \<and> scanned (fst (main_extended literalLib
        \<lparr>patternFlags = [(Success, ''SUCCESS''), (Failure, ''[abc'')], quietFlag = False,
           helpFlag = False, args = []\<rparr>
        \<lparr>stdin = \<lparr>lines = [''BUILD SUCCESS''], err = None\<rparr>,
           Open = (\<lambda>a. Inl ''no such file or directory'')\<rparr>)) = []"
proof -
  let ?flags = "[(Success, ''SUCCESS''), (Failure, ''[abc'')]"
  let ?cmd = "\<lparr>patternFlags = ?flags, quietFlag = False, helpFlag = False, args = []\<rparr>"
  let ?e = "''error parsing regexp: missing closing ]: `[abc`''"
  let ?msg = "''invalid regex pattern '' @ [CHR 0x27] @ ''[abc'' @ [CHR 0x27] @ '': '' @ ?e"
  have h1: "Compile literalLib ''[abc'' = Inl ?e" by code_simp
  have h2: "(Failure, ''[abc'') \<in> set ?flags" by simp
  have h3: "patternFlags ?cmd = ?flags" by simp
  have h4: "list_all (\<lambda>kv. \<not> isl (Compile literalLib (snd kv))) [(Success, ''SUCCESS'')]
            \<and> ?flags = [(Success, ''SUCCESS'')] @ (Failure, ''[abc'') # []"
    by code_simp
  have f: "failf literalLib Failure ''[abc'' ?msg
            = ''invalid value '' @ [CHR 0x22] @ ''[abc'' @ [CHR 0x22]
                @ '' for flag -failure: invalid regex pattern '' @ [CHR 0x27] @ ''[abc''
                @ [CHR 0x27] @ '': error parsing regexp: missing closing ]: `[abc`\<newline>''"
    "defaultUsage literalLib = ''Usage of handytail:\<newline>''"
    by code_simp+
  note t = invalid_pattern_prevents_startup[OF h1 h2 h3 refl,
      of "[''SUCCESS'']" "\<lparr>lines = [''BUILD SUCCESS''], err = None\<rparr>"
         "\<lparr>stdin = \<lparr>lines = [''BUILD SUCCESS''], err = None\<rparr>,
            Open = (\<lambda>a. Inl ''no such file or directory'')\<rparr>"
         "[(Success, ''SUCCESS'')]" "[]"]
  note t3 = t[THEN conjunct2, THEN conjunct2, THEN conjunct2]
  note t6 = t3[THEN conjunct2, THEN conjunct2, THEN conjunct2]
  note t9 = t6[THEN conjunct2, THEN conjunct2, THEN conjunct2]
  show ?thesis
  proof (intro conjI)
    show "RegexSlice_Set literalLib [''SUCCESS''] ''[abc'' = ([''SUCCESS''], Some ?msg)"
      by (rule t[THEN conjunct1])
    show "main_minimal literalLib ?flags \<lparr>lines = [''BUILD SUCCESS''], err = None\<rparr>
     = ([EvStderr (''invalid value '' @ [CHR 0x22] @ ''[abc'' @ [CHR 0x22]
                    @ '' for flag -failure: invalid regex pattern '' @ [CHR 0x27] @ ''[abc''
                    @ [CHR 0x27] @ '': error parsing regexp: missing closing ]: `[abc`\<newline>''),
         EvStderr ''Usage of handytail:\<newline>''], 2)"
      by (rule t9[THEN mp, OF h4, THEN conjunct1, unfolded f])
    show "snd (main_extended literalLib ?cmd
        \<lparr>stdin = \<lparr>lines = [''BUILD SUCCESS''], err = None\<rparr>,
           Open = (\<lambda>a. Inl ''no such file or directory'')\<rparr>) = 99"
      by (rule t6[THEN conjunct1])
    show "scanned (fst (main_extended literalLib ?cmd
        \<lparr>stdin = \<lparr>lines = [''BUILD SUCCESS''], err = None\<rparr>,
           Open = (\<lambda>a. Inl ''no such file or directory'')\<rparr>)) = []"
      by (rule t6[THEN conjunct2, THEN conjunct1])
  qed
qed


lemma flagParse_step:
  "flagParse lib ((k, v) # rest) s0 f0 =
     (case Compile lib v of
        Inl e \<Rightarrow> Inl (failf lib k v (''invalid regex pattern '' @ [CHR 0x27] @ v @ [CHR 0x27] @ '': '' @ e))
      | Inr c \<Rightarrow> (case k of Success \<Rightarrow> flagParse lib rest (s0 @ [c]) f0
                          | Failure \<Rightarrow> flagParse lib rest s0 (f0 @ [c])))"
  by (cases k; cases "Compile lib v") (simp_all add: RegexSlice_Set_def)

lemma flagParse_keeps:
  "flagParse lib flags s0 f0 = Inr (sp, fp) \<Longrightarrow> set s0 \<subseteq> set sp"
proof (induction flags arbitrary: s0 f0)
  case Nil
  then show ?case by simp
next
  case (Cons kv flags)
  obtain k v where kv: "kv = (k, v)" by (cases kv)
  from Cons.prems obtain c where c: "Compile lib v = Inr c"
    by (cases "Compile lib v") (auto simp: kv flagParse_step)
  show ?case
  proof (cases k)
    case Success
    with Cons.prems c have "flagParse lib flags (s0 @ [c]) f0 = Inr (sp, fp)"
      by (simp add: kv flagParse_step)
    from Cons.IH[OF this] show ?thesis by simp
  next
    case Failure
    with Cons.prems c have "flagParse lib flags s0 (f0 @ [c]) = Inr (sp, fp)"
      by (simp add: kv flagParse_step)
    from Cons.IH[OF this] show ?thesis .
  qed
qed

lemma flagParse_success_in:
  "flagParse lib flags s0 f0 = Inr (sp, fp) \<Longrightarrow> (Success, v) \<in> set flags \<Longrightarrow>
   Compile lib v = Inr c \<Longrightarrow> c \<in> set sp"
proof (induction flags arbitrary: s0 f0)
  case Nil
  then show ?case by simp
next
  case (Cons kv flags)
  obtain k' v' where kv: "kv = (k', v')" by (cases kv)
  from Cons.prems(1) obtain c' where c': "Compile lib v' = Inr c'"
    by (cases "Compile lib v'") (auto simp: kv flagParse_step)
  show ?case
  proof (cases k')
    case Success
    with Cons.prems(1) c' have r: "flagParse lib flags (s0 @ [c']) f0 = Inr (sp, fp)"
      by (simp add: kv flagParse_step)
    show ?thesis
    proof (cases "v' = v")
      case True
      with c' Cons.prems(3) have "c \<in> set (s0 @ [c'])" by simp
      with flagParse_keeps[OF r] show ?thesis by blast
    next
      case False
      with Cons.prems(2) Success have "(Success, v) \<in> set flags" by (simp add: kv)
      from Cons.IH[OF r this Cons.prems(3)] show ?thesis .
    qed
  next
    case Failure
    with Cons.prems(1) c' have r: "flagParse lib flags s0 (f0 @ [c']) = Inr (sp, fp)"
      by (simp add: kv flagParse_step)
    from Cons.prems(2) Failure have "(Success, v) \<in> set flags" by (simp add: kv)
    from Cons.IH[OF r this Cons.prems(3)] show ?thesis .
  qed
qed

section \<open>The regexp model on patterns without metacharacters\<close>


lemma literal_stack:
  assumes "numRunes p < maxRunes"
  shows "stack p = [] \<Longrightarrow>
           literal r p = Some \<lparr>stack = [OpLiteral [r]], numRunes = Suc (numRunes p)\<rparr>"
    "stack p = [OpLiteral a] \<Longrightarrow>
           literal r p = Some \<lparr>stack = [OpLiteral [r], OpLiteral a], numRunes = Suc (numRunes p)\<rparr>"
    "stack p = [OpLiteral b, OpLiteral a] \<Longrightarrow>
           literal r p = Some \<lparr>stack = [OpLiteral [r], OpLiteral (a @ b)], numRunes = Suc (numRunes p)\<rparr>"
  using assms by (simp_all add: literal_def push_def lenRune_def Let_def)

lemma parseLoop_literals:
  assumes "\<forall>c \<in> set s. c \<notin> set metachars \<and> of_char c < runeSelf"
    and "numRunes p + length s \<le> maxRunes"
    and "(stack p = [] \<and> w = []) \<or> (stack p = [OpLiteral w] \<and> w \<noteq> [])
         \<or> (\<exists>a b. stack p = [OpLiteral b, OpLiteral a] \<and> w = a @ b \<and> b \<noteq> [])"
  shows "\<exists>p'. parseLoop s p = Some p' \<and> numRunes p' = numRunes p + length s
           \<and> ((stack p' = [] \<and> w @ map of_char s = [])
                \<or> (stack p' = [OpLiteral (w @ map of_char s)] \<and> w @ map of_char s \<noteq> [])
                \<or> (\<exists>a b. stack p' = [OpLiteral b, OpLiteral a] \<and> w @ map of_char s = a @ b
                           \<and> b \<noteq> []))"
  using assms
proof (induction s arbitrary: p w)
  case Nil
  then show ?case by simp
next
  case (Cons c s)
  let ?r = "of_char c :: rune"
  from Cons.prems(2) have lt: "numRunes p < maxRunes" by simp
  obtain q where q: "literal ?r p = Some q" "numRunes q = Suc (numRunes p)"
    and inv: "(stack q = [OpLiteral (w @ [?r])] \<and> w @ [?r] \<noteq> [])
         \<or> (\<exists>a b. stack q = [OpLiteral b, OpLiteral a] \<and> w @ [?r] = a @ b \<and> b \<noteq> [])"
  proof -
    from Cons.prems(3) consider
      (e) "stack p = []" "w = []"
      | (o) "stack p = [OpLiteral w]"
      | (t) a b where "stack p = [OpLiteral b, OpLiteral a]" "w = a @ b"
      by blast
    then show thesis
    proof cases
      case e
      with literal_stack(1)[OF lt, of ?r] that show thesis by simp
    next
      case o
      from literal_stack(2)[OF lt o, of ?r] that show thesis by simp
    next
      case t
      from literal_stack(3)[OF lt t(1), of ?r] t(2) that show thesis by simp
    qed
  qed
  from Cons.prems(1) have ok: "\<forall>c \<in> set s. c \<notin> set metachars \<and> of_char c < runeSelf"
    and c: "c \<notin> set metachars" "of_char c < runeSelf" by simp_all
  from Cons.prems(2) q(2) have b: "numRunes q + length s \<le> maxRunes" by simp
  have inv': "(stack q = [] \<and> w @ [?r] = []) \<or> (stack q = [OpLiteral (w @ [?r])] \<and> w @ [?r] \<noteq> [])
         \<or> (\<exists>a b. stack q = [OpLiteral b, OpLiteral a] \<and> w @ [?r] = a @ b \<and> b \<noteq> [])"
    using inv by blast
  from Cons.IH[OF ok b inv'] obtain p' where
    "parseLoop s q = Some p'" "numRunes p' = numRunes q + length s"
    "(stack p' = [] \<and> (w @ [?r]) @ map of_char s = [])
      \<or> (stack p' = [OpLiteral ((w @ [?r]) @ map of_char s)] \<and> (w @ [?r]) @ map of_char s \<noteq> [])
      \<or> (\<exists>a b. stack p' = [OpLiteral b, OpLiteral a] \<and> (w @ [?r]) @ map of_char s = a @ b
                 \<and> b \<noteq> [])"
    by blast
  then show ?case using c q by (simp del: parseLoop.simps add: parseLoop.simps(2)[of c s p])
qed

lemma parse_literal:
  assumes "\<forall>c \<in> set s. c \<notin> set metachars \<and> of_char c < runeSelf"
    and "3 * length s \<le> maxRunes"
  shows "parse s = Some (if s = [] then OpEmptyMatch else OpLiteral (map of_char s))"
proof -
  let ?re = "if s = [] then OpEmptyMatch else OpLiteral (map of_char s)"
  have n: "lenRune ?re = length s" by (simp add: lenRune_def)
  from parseLoop_literals[OF assms(1), of "\<lparr>stack = [], numRunes = 0\<rparr>" "[]"] assms(2)
  obtain p where p: "parseLoop s \<lparr>stack = [], numRunes = 0\<rparr> = Some p" "numRunes p = length s"
    and inv: "(stack p = [] \<and> map of_char s = ([] :: rune list))
         \<or> (stack p = [OpLiteral (map of_char s)] \<and> map of_char s \<noteq> ([] :: rune list))
         \<or> (\<exists>a b. stack p = [OpLiteral b, OpLiteral a] \<and> map of_char s = a @ b \<and> b \<noteq> [])"
    by auto
  have c: "concat_stack p = Some \<lparr>stack = [?re], numRunes = 2 * length s\<rparr>"
  proof -
    from inv consider
      (e) "stack p = []" "s = []"
      | (o) "stack p = [OpLiteral (map of_char s)]" "s \<noteq> []"
      | (t) a b where "stack p = [OpLiteral b, OpLiteral a]" "map of_char s = a @ b" "s \<noteq> []"
      by fastforce
    then show ?thesis
    proof cases
      case e
      then show ?thesis using p(2) by (simp add: concat_stack_def push_def lenRune_def)
    next
      case o
      then show ?thesis using p(2) assms(2)
        by (simp add: concat_stack_def push_def lenRune_def)
    next
      case t
      have "length (a @ b) = length s" using t(2) by (metis length_map)
      then show ?thesis using t p(2) assms(2)
        by (simp add: concat_stack_def push_def lenRune_def)
    qed
  qed
  have a: "alternate \<lparr>stack = [?re], numRunes = 2 * length s\<rparr>
             = Some \<lparr>stack = [?re], numRunes = 3 * length s\<rparr>"
    using assms(2) n by (simp add: alternate_def push_def)
  show ?thesis by (simp add: parse_def p(1) c a del: parseLoop.simps)
qed

lemma parse_empty: "parse [] = Some OpEmptyMatch"
  using parse_literal[of "[]"] by (simp add: maxRunes_def)

lemma search_EmptyMatch: "search OpEmptyMatch rs"
  by (cases rs) simp_all

lemma take_is_prefix: "take (length l) rs = l \<longleftrightarrow> (\<exists>b. rs = l @ b)"
proof
  assume "take (length l) rs = l"
  then have "rs = l @ drop (length l) rs" by (metis append_take_drop_id)
  then show "\<exists>b. rs = l @ b" ..
next
  assume "\<exists>b. rs = l @ b"
  then show "take (length l) rs = l" by auto
qed

lemma search_literal: "search (OpLiteral l) rs \<longleftrightarrow> (\<exists>a b. rs = a @ l @ b)"
proof (induction rs)
  case Nil
  show ?case by auto
next
  case (Cons r rs)
  show ?case
  proof
    assume "search (OpLiteral l) (r # rs)"
    then consider "take (length l) (r # rs) = l" | "search (OpLiteral l) rs" by auto
    then show "\<exists>a b. r # rs = a @ l @ b"
    proof cases
      case 1
      then obtain b where "r # rs = l @ b" using take_is_prefix[of l "r # rs"] by blast
      then have "r # rs = [] @ l @ b" by simp
      then show ?thesis by blast
    next
      case 2
      with Cons.IH obtain a b where "rs = a @ l @ b" by blast
      then have "r # rs = (r # a) @ l @ b" by simp
      then show ?thesis by blast
    qed
  next
    assume "\<exists>a b. r # rs = a @ l @ b"
    then obtain a b where e: "r # rs = a @ l @ b" by blast
    show "search (OpLiteral l) (r # rs)"
    proof (cases a)
      case Nil
      with e have "take (length l) (r # rs) = l" using take_is_prefix[of l "r # rs"] by auto
      then show ?thesis by simp
    next
      case (Cons x a')
      with e have "rs = a' @ l @ b" by simp
      with Cons.IH have "search (OpLiteral l) rs" by blast
      then show ?thesis by simp
    qed
  qed
qed


lemma goRegexp_empty:
  "Compile (goRegexp rest) [] = Inr (Inl OpEmptyMatch)"
  "MatchString (goRegexp rest) (Inl OpEmptyMatch) s"
  by (simp_all add: goRegexp_def parse_empty search_EmptyMatch)

lemma scanBody_success:
  assumes "anyMatch lib sp (processLine line)"
  shows "scanBody lib sp fp line
           = ([EvScan line, EvPrintln (processLine line)]
                @ fst (rangePatterns lib sp (processLine line)), Some 0)"
    "ext_scanBody lib quiet sp fp line
           = (EvScan line # (if quiet then [] else [EvPrintln (processLine line)])
                @ fst (rangePatterns lib sp (processLine line)), Some 0)"
proof -
  obtain evs where r: "rangePatterns lib sp (processLine line) = (evs, True)"
    using assms rangePatterns_hit[of lib sp "processLine line"]
    by (cases "rangePatterns lib sp (processLine line)") auto
  show "scanBody lib sp fp line
           = ([EvScan line, EvPrintln (processLine line)]
                @ fst (rangePatterns lib sp (processLine line)), Some 0)"
    by (simp add: scanBody_def r)
  show "ext_scanBody lib quiet sp fp line
           = (EvScan line # (if quiet then [] else [EvPrintln (processLine line)])
                @ fst (rangePatterns lib sp (processLine line)), Some 0)"
    by (simp add: ext_scanBody_def ext_processLine_eq r)
qed

lemma run_first_line_trace:
  assumes "anyMatch lib sp (processLine line)"
  shows "run_minimal lib sp fp \<lparr>lines = line # others, err = er\<rparr>
           = ([EvScan line, EvPrintln (processLine line)]
                @ fst (rangePatterns lib sp (processLine line)), 0)"
    "run_extended lib quiet sp fp \<lparr>lines = line # others, err = er\<rparr>
           = (EvScan line # (if quiet then [] else [EvPrintln (processLine line)])
                @ fst (rangePatterns lib sp (processLine line)), 0)"
  using scanBody_success[OF assms]
  by (simp_all add: run_minimal_def run_extended_def)

lemma scanLoop_all_scanned:
  "\<not> list_ex (decisive lib sp fp) ls \<Longrightarrow> scanned (fst (scanLoop lib sp fp ls)) = ls"
proof (induction ls)
  case Nil
  show ?case by simp
next
  case (Cons line ls)
  then have n: "snd (scanBody lib sp fp line) = None"
    by (simp add: scanBody_status decisive_def)
  then obtain evs where b: "scanBody lib sp fp line = (evs, None)"
    by (cases "scanBody lib sp fp line") auto
  have s: "scanned evs = [line]"
    using ext_scanBody_quiet(3)[of lib False sp fp line] b by (simp add: ext_scanBody_loud)
  from Cons have "scanned (fst (scanLoop lib sp fp ls)) = ls" by simp
  then show ?case using b s by (auto simp add: scanned_append split: prod.splits)
qed

lemma run_all_scanned:
  assumes "\<not> list_ex (decisive lib sp fp) (lines input)"
  shows "scanned (fst (run_minimal lib sp fp input)) = lines input"
proof -
  obtain evs where s: "scanLoop lib sp fp (lines input) = (evs, None)"
    using scanLoop_undecided[of lib sp fp "lines input"] assms
    by (cases "scanLoop lib sp fp (lines input)") auto
  with scanLoop_all_scanned[OF assms] have "scanned evs = lines input" by simp
  with s show ?thesis by (cases "err input") (simp_all add: run_minimal_def scanned_append)
qed

lemma flagParse_prefix:
  "flagParse lib flags s0 f0 = Inr (sp, fp) \<Longrightarrow> \<exists>t. sp = s0 @ t"
proof (induction flags arbitrary: s0 f0)
  case Nil
  then show ?case by simp
next
  case (Cons kv flags)
  obtain k v where kv: "kv = (k, v)" by (cases kv)
  from Cons.prems obtain c where c: "Compile lib v = Inr c"
    by (cases "Compile lib v") (auto simp: kv flagParse_step)
  show ?case
  proof (cases k)
    case Success
    with Cons.prems c have "flagParse lib flags (s0 @ [c]) f0 = Inr (sp, fp)"
      by (simp add: kv flagParse_step)
    from Cons.IH[OF this] show ?thesis by auto
  next
    case Failure
    with Cons.prems c have "flagParse lib flags s0 (f0 @ [c]) = Inr (sp, fp)"
      by (simp add: kv flagParse_step)
    from Cons.IH[OF this] show ?thesis .
  qed
qed

lemma flagParse_first_success:
  assumes "flagParse lib ((Success, v) # flags) [] [] = Inr (sp, fp)" "Compile lib v = Inr c"
  shows "\<exists>t. sp = c # t"
proof -
  from assms have "flagParse lib flags [c] [] = Inr (sp, fp)"
    by (simp add: flagParse_step)
  from flagParse_prefix[OF this] show ?thesis by simp
qed

text \<open>
  C10: \<^verbatim>\<open>regexp.Compile\<close> accepts the empty string (the parser, with nothing to read,
  leaves \<^verbatim>\<open>OpEmptyMatch\<close>), so \<^verbatim>\<open>Set\<close> accepts it and appends its pattern to the
  list; that pattern matches every string, hence every normalized line and the empty line.
  Consequently a command line whose patterns all compile and that has the empty string
  among its success patterns makes both variants exit with status 0 on the first line of
  the input: the line is read, printed (unless quiet) and tried against the success
  patterns up to the first that matches, and nothing else happens; when the empty string
  is the first flag, that is the one call on the empty pattern. With the same kind of
  command line but no pattern matching any line, the minimal variant reads every line.
  The other patterns of the command line may be any that compile, inside the modelled
  part of the regexp package or outside it (\<open>rest\<close>).
\<close>

theorem empty_pattern_matches_first_line:
  "Compile (goRegexp rest) [] = Inr (Inl OpEmptyMatch)
   \<and> RegexSlice_Set (goRegexp rest) r [] = (r @ [Inl OpEmptyMatch], None)
   \<and> MatchString (goRegexp rest) (Inl OpEmptyMatch) s
   \<and> MatchString (goRegexp rest) (Inl OpEmptyMatch) (processLine line)
   \<and> MatchString (goRegexp rest) (Inl OpEmptyMatch) (processLine [])
   \<and> (flagParse (goRegexp rest) flags [] [] = Inr (sp, fp) \<and> (Success, []) \<in> set flags \<longrightarrow>
        Inl OpEmptyMatch \<in> set sp
        \<and> snd (rangePatterns (goRegexp rest) sp (processLine line))
        \<and> main_minimal (goRegexp rest) flags \<lparr>lines = line # others, err = er\<rparr>
            = ([EvScan line, EvPrintln (processLine line)]
                 @ fst (rangePatterns (goRegexp rest) sp (processLine line)), 0))
   \<and> (flagParse (goRegexp rest) (patternFlags cmd) [] [] = Inr (sp, fp)
        \<and> (Success, []) \<in> set (patternFlags cmd)
        \<and> \<not> helpFlag cmd \<and> args cmd = [] \<and> stdin en = \<lparr>lines = line # others, err = er\<rparr> \<longrightarrow>
        main_extended (goRegexp rest) cmd en
            = (EvScan line # (if quietFlag cmd then [] else [EvPrintln (processLine line)])
                 @ fst (rangePatterns (goRegexp rest) sp (processLine line)), 0))
   \<and> (flagParse (goRegexp rest) ((Success, []) # flags) [] [] = Inr (sp, fp) \<longrightarrow>
        main_minimal (goRegexp rest) ((Success, []) # flags) \<lparr>lines = line # others, err = er\<rparr>
            = ([EvScan line, EvPrintln (processLine line),
                EvMatch (Inl OpEmptyMatch) (processLine line)], 0))
   \<and> (flagParse (goRegexp rest) flags [] [] = Inr (sp, fp)
        \<and> \<not> list_ex (decisive (goRegexp rest) sp fp) ls \<longrightarrow>
        scanned (fst (main_minimal (goRegexp rest) flags \<lparr>lines = ls, err = er\<rparr>)) = ls)"
proof -
  let ?lib = "goRegexp rest"
  let ?p = "Inl OpEmptyMatch :: regex + 'a"
  let ?l = "processLine line"
  have c: "Compile ?lib [] = Inr ?p" by (rule goRegexp_empty(1))
  have m: "MatchString ?lib ?p t" for t by (rule goRegexp_empty(2))
  have inp: "?p \<in> set sp \<and> anyMatch ?lib sp ?l"
    if "flagParse ?lib fl [] [] = Inr (sp, fp)" "(Success, []) \<in> set fl" for fl
  proof -
    from flagParse_success_in[OF that c] have "?p \<in> set sp" .
    then show ?thesis using m by (auto simp: anyMatch_iff)
  qed
  show ?thesis
  proof (intro conjI impI)
    show "Compile ?lib [] = Inr ?p" by (rule c)
    show "RegexSlice_Set ?lib r [] = (r @ [?p], None)" using c by (rule RegexSlice_Set_ok)
    show "MatchString ?lib ?p s" by (rule m)
    show "MatchString ?lib ?p ?l" by (rule m)
    show "MatchString ?lib ?p (processLine [])" by (rule m)
  next
    assume a: "flagParse ?lib flags [] [] = Inr (sp, fp) \<and> (Success, []) \<in> set flags"
    then have i: "?p \<in> set sp \<and> anyMatch ?lib sp ?l" using inp[of flags] by blast
    then show "Inl OpEmptyMatch \<in> set sp" by blast
    show "snd (rangePatterns ?lib sp ?l)" using i by (simp add: rangePatterns_hit)
    show "main_minimal ?lib flags \<lparr>lines = line # others, err = er\<rparr>
            = ([EvScan line, EvPrintln ?l] @ fst (rangePatterns ?lib sp ?l), 0)"
      using a i main_minimal_run[of ?lib flags sp fp] run_first_line_trace(1)[of ?lib sp line fp]
      by simp
  next
    assume a: "flagParse ?lib (patternFlags cmd) [] [] = Inr (sp, fp)
        \<and> (Success, []) \<in> set (patternFlags cmd)
        \<and> \<not> helpFlag cmd \<and> args cmd = [] \<and> stdin en = \<lparr>lines = line # others, err = er\<rparr>"
    then have i: "anyMatch ?lib sp ?l" using inp[of "patternFlags cmd"] by blast
    from a have "main_extended ?lib cmd en = run_extended ?lib (quietFlag cmd) sp fp (stdin en)"
      using main_extended_run(1)[of ?lib cmd sp fp en] by blast
    then show "main_extended ?lib cmd en
            = (EvScan line # (if quietFlag cmd then [] else [EvPrintln ?l])
                 @ fst (rangePatterns ?lib sp ?l), 0)"
      using a run_first_line_trace(2)[OF i] by simp
  next
    assume a: "flagParse ?lib ((Success, []) # flags) [] [] = Inr (sp, fp)"
    from flagParse_first_success[OF a c] obtain t where t: "sp = ?p # t" by blast
    have r: "rangePatterns ?lib sp ?l = ([EvMatch ?p ?l], True)" using m by (simp add: t)
    then have "anyMatch ?lib sp ?l" using rangePatterns_hit[of ?lib sp ?l] by simp
    from run_first_line_trace(1)[OF this] main_minimal_run[OF a] r
    show "main_minimal ?lib ((Success, []) # flags) \<lparr>lines = line # others, err = er\<rparr>
            = ([EvScan line, EvPrintln ?l, EvMatch ?p ?l], 0)"
      by simp
  next
    assume a: "flagParse ?lib flags [] [] = Inr (sp, fp)
        \<and> \<not> list_ex (decisive ?lib sp fp) ls"
    then have "main_minimal ?lib flags \<lparr>lines = ls, err = er\<rparr>
                 = run_minimal ?lib sp fp \<lparr>lines = ls, err = er\<rparr>"
      using main_minimal_run by blast
    then show "scanned (fst (main_minimal ?lib flags \<lparr>lines = ls, err = er\<rparr>)) = ls"
      using a run_all_scanned[of ?lib sp fp "\<lparr>lines = ls, err = er\<rparr>"] by simp
  qed
qed

theorem empty_pattern_matches_first_line_witness:
  "Compile (goRegexp literalLib) [] = Inr (Inl OpEmptyMatch)
   \<and> RegexSlice_Set (goRegexp literalLib) [] [] = ([] @ [Inl OpEmptyMatch], None)
   \<and> MatchString (goRegexp literalLib) (Inl OpEmptyMatch) (processLine [])
   \<and> main_minimal (goRegexp literalLib) [(Failure, ''FAILED''), (Success, [])]
        \<lparr>lines = [''BUILD FAILED'', ''BUILD SUCCESS''], err = None\<rparr>
       = ([EvScan ''BUILD FAILED'', EvPrintln ''BUILD FAILED'',
           EvMatch (Inl OpEmptyMatch) ''BUILD FAILED''], 0)
   \<and> scanned (fst (main_minimal (goRegexp literalLib) [(Failure, ''FAILED'')]
        \<lparr>lines = [''BUILD IN PROGRESS'', ''DONE''], err = None\<rparr>))
       = [''BUILD IN PROGRESS'', ''DONE'']"
proof -
  let ?lib = "goRegexp literalLib"
  let ?F = "Inl (OpLiteral [70, 65, 73, 76, 69, 68]) :: regex + string"
  let ?E = "Inl OpEmptyMatch :: regex + string"
  have h1: "flagParse ?lib [(Failure, ''FAILED''), (Success, [])] [] [] = Inr ([?E], [?F])
            \<and> (Success, []) \<in> set [(Failure, ''FAILED''), (Success, [])]"
    by code_simp
  have h2: "flagParse ?lib [(Failure, ''FAILED'')] [] [] = Inr ([], [?F])
            \<and> \<not> list_ex (decisive ?lib [] [?F]) [''BUILD IN PROGRESS'', ''DONE'']"
    by code_simp
  have e: "[EvScan ''BUILD FAILED'', EvPrintln (processLine ''BUILD FAILED'')]
             @ fst (rangePatterns ?lib [?E] (processLine ''BUILD FAILED''))
           = [EvScan ''BUILD FAILED'', EvPrintln ''BUILD FAILED'', EvMatch ?E ''BUILD FAILED'']"
    by code_simp
  note t = empty_pattern_matches_first_line[where rest = literalLib and r = "[]"
      and line = "''BUILD FAILED''" and others = "[''BUILD SUCCESS'']" and er = None
      and flags = "[(Failure, ''FAILED''), (Success, [])]" and sp = "[?E]" and fp = "[?F]"]
  note u = empty_pattern_matches_first_line[where rest = literalLib and er = None
      and flags = "[(Failure, ''FAILED'')]" and sp = "[]" and fp = "[?F]"
      and ls = "[''BUILD IN PROGRESS'', ''DONE'']"]
  note t5 = t[THEN conjunct2, THEN conjunct2, THEN conjunct2, THEN conjunct2, THEN conjunct2]
  note u5 = u[THEN conjunct2, THEN conjunct2, THEN conjunct2, THEN conjunct2, THEN conjunct2]
  show ?thesis
  proof (intro conjI)
    show "Compile ?lib [] = Inr ?E" by (rule t[THEN conjunct1])
    show "RegexSlice_Set ?lib [] [] = ([] @ [?E], None)"
      by (rule t[THEN conjunct2, THEN conjunct1])
    show "MatchString ?lib ?E (processLine [])"
      by (rule t[THEN conjunct2, THEN conjunct2, THEN conjunct2, THEN conjunct2, THEN conjunct1])
    show "main_minimal ?lib [(Failure, ''FAILED''), (Success, [])]
        \<lparr>lines = [''BUILD FAILED'', ''BUILD SUCCESS''], err = None\<rparr>
       = ([EvScan ''BUILD FAILED'', EvPrintln ''BUILD FAILED'', EvMatch ?E ''BUILD FAILED''], 0)"
      using t5[THEN conjunct1, THEN mp, OF h1, THEN conjunct2, THEN conjunct2]
      by (simp only: e)
    show "scanned (fst (main_minimal ?lib [(Failure, ''FAILED'')]
        \<lparr>lines = [''BUILD IN PROGRESS'', ''DONE''], err = None\<rparr>))
       = [''BUILD IN PROGRESS'', ''DONE'']"
      by (rule u5[THEN conjunct2, THEN conjunct2, THEN conjunct2, THEN mp, OF h2])
  qed
qed

end
